theory Spec2Isabelle
  imports Complex_Main "HOL-Library.Word" "HOL-Library.Log_Nat" "HOL-Library.Multiset"
begin

section \<open>A chained hash table with load-factor driven doubling\<close>

text \<open>
  The development embeds \<^verbatim>\<open>HashTable.c\<close>: a bucket array of singly linked chains, a
  caller-supplied hash and comparison function, insertion with replacement, removal,
  membership, and a rehash that doubles the bucket array when the prospective load factor
  passes \<^verbatim>\<open>LOAD_FACTOR\<close>.

  Representation.
  \<^item> \<^verbatim>\<open>size_t\<close> is a 64-bit word; arithmetic on it wraps as in C.
  \<^item> A \<^verbatim>\<open>void*\<close> value is its 64-bit address: \<^verbatim>\<open>NULL\<close> is 0 and \<^verbatim>\<open>(void*)-1\<close> is the
    all-ones word. The table never looks through a value pointer, it only stores it and
    hands it back.
  \<^item> A key pointer is \<open>'k option\<close>: \<open>None\<close> is \<^verbatim>\<open>NULL\<close>, \<open>Some k\<close> points to the key
    \<open>k\<close>. The callbacks are only ever applied to non-null keys, so they are functions on
    \<open>'k\<close>.
  \<^item> A chain is the list of its elements in link order; the \<^verbatim>\<open>next\<close> field is the list
    structure. The bucket array is the list of its chains.
  \<^item> \<^verbatim>\<open>malloc\<close> and \<^verbatim>\<open>calloc\<close> consume one entry of a script of outcomes; an exhausted
    script means every further request succeeds.
  \<^item> A table pointer is \<open>'k HashTable option\<close>. \<open>insertElement\<close>, \<open>removeElement\<close>,
    \<open>hasKey\<close> and \<open>getNumElements\<close> take the table a non-null pointer points to and return
    its new contents; \<open>insertElementAt\<close>, \<open>removeElementAt\<close>, \<open>hasKeyAt\<close> and
    \<open>getNumElementsAt\<close> put the \<^verbatim>\<open>hashTable == NULL\<close> guard in front of them.
  \<^item> \<^verbatim>\<open>free\<close> has no effect on the values the operations return, so \<^verbatim>\<open>freeHashTable\<close> and
    the release of unlinked elements are not modelled.
\<close>

subsection \<open>Single-precision arithmetic of the load-factor test\<close>

text \<open>
  A finite \<^verbatim>\<open>float\<close> is modelled by the rational it denotes. \<open>float_round\<close> rounds a
  rational to the nearest number with a 24-bit significand, ties to even, which is what a
  conversion from \<^verbatim>\<open>size_t\<close> and each single-precision operation does when expressions
  are evaluated in their own type (\<^verbatim>\<open>FLT_EVAL_METHOD\<close> 0). The exponent range is not
  modelled: every quantity of the load-factor test is zero or lies between \<open>2\<^sup>-\<^sup>6\<^sup>4\<close> and
  \<open>2\<^sup>6\<^sup>4\<close> in magnitude.
\<close>

definition round_even :: "rat \<Rightarrow> int" where
  "round_even q = (let f = \<lfloor>q\<rfloor>; r = q - of_int f in
     if r < 1 / 2 then f else if 1 / 2 < r then f + 1 else if even f then f else f + 1)"

text \<open>The binary exponent \<open>e\<close> of a positive rational: \<open>2\<^sup>e \<le> x < 2\<^sup>e\<^sup>+\<^sup>1\<close>.\<close>

definition ilog2 :: "rat \<Rightarrow> int" where
  "ilog2 x = (if 1 \<le> x then bitlen \<lfloor>x\<rfloor> - 1 else - bitlen (\<lceil>1 / x\<rceil> - 1))"

definition float_round :: "rat \<Rightarrow> rat" where
  "float_round x = (if x = 0 then 0 else
     let u = 2 powi (ilog2 \<bar>x\<bar> - 23) in sgn x * of_int (round_even (\<bar>x\<bar> / u)) * u)"

type_synonym size_t = "64 word"

text \<open>\<^verbatim>\<open>static const float LOAD_FACTOR = 0.7;\<close> is the float nearest to 0.7, and
  \<^verbatim>\<open>FLT_EPSILON\<close> is \<open>2\<^sup>-\<^sup>2\<^sup>3\<close>.\<close>

definition LOAD_FACTOR :: rat where "LOAD_FACTOR = 11744051 / 16777216"

definition FLT_EPSILON :: rat where "FLT_EPSILON = 1 / 8388608"

definition float_of_size :: "size_t \<Rightarrow> rat" where
  "float_of_size n = float_round (of_nat (unat n))"

text \<open>
  Lines 135--137 of \<^verbatim>\<open>insertElement\<close>:
  \<^verbatim>\<open>float loadFactor = (float)(nbElements + 1) / capacity;\<close> and the test
  \<^verbatim>\<open>(loadFactor - LOAD_FACTOR) > FLT_EPSILON\<close>. A zero capacity divides by zero: the
  quotient is \<open>+\<infinity>\<close> and the test succeeds, unless the numerator has wrapped to zero as
  well, where the quotient is a NaN and the test fails.
\<close>

definition loadFactorExceeded :: "size_t \<Rightarrow> size_t \<Rightarrow> bool" where
  "loadFactorExceeded nb cap = (let a = float_of_size (nb + 1); b = float_of_size cap in
     if b = 0 then a \<noteq> 0
     else FLT_EPSILON < float_round (float_round (a / b) - LOAD_FACTOR))"

text \<open>The least quotient whose rounding passes the test.\<close>

definition threshold :: rat where "threshold = 23488107 / 33554432"

subsection \<open>Data model\<close>

type_synonym ptr = "64 word"

definition NULL :: ptr where "NULL = 0"

text \<open>The value \<^verbatim>\<open>(void*)-1\<close> returned by \<^verbatim>\<open>insertElement\<close> for a new element.\<close>

definition INSERTED :: ptr where "INSERTED = - 1"

record 'k Element =
  key :: 'k
  "value" :: ptr

record 'k HashTable =
  capacity :: size_t
  elementsArray :: "'k Element list list"
  nbElements :: size_t
  hashFunction :: "'k \<Rightarrow> size_t"
  compareFunction :: "'k \<Rightarrow> 'k \<Rightarrow> int"

text \<open>
  \<open>DivisionByZero\<close> is the undefined \<^verbatim>\<open>key % 0\<close> of \<^verbatim>\<open>hashKey\<close>. \<open>OutOfFuel\<close> is not a
  behaviour of the C code: \<^verbatim>\<open>insertElement\<close> and \<^verbatim>\<open>reHashTable\<close> call each other, and the
  model bounds the nesting of rehashes by a counter.
\<close>

datatype fault = DivisionByZero | OutOfFuel

type_synonym heap = "bool list"

fun alloc :: "heap \<Rightarrow> bool \<times> heap" where
  "alloc [] = (True, [])"
| "alloc (ok # rest) = (ok, rest)"

subsection \<open>Operations\<close>

definition createHashTable ::
  "heap \<Rightarrow> size_t \<Rightarrow> ('k \<Rightarrow> size_t) option \<Rightarrow> ('k \<Rightarrow> 'k \<Rightarrow> int) option
     \<Rightarrow> 'k HashTable option \<times> heap" where
  "createHashTable h cap hf cf =
     (case (hf, cf) of
        (Some hashFn, Some compareFn) \<Rightarrow>
          (case alloc h of
             (False, h1) \<Rightarrow> (None, h1)
           | (True, h1) \<Rightarrow>
               (case alloc h1 of
                  (False, h2) \<Rightarrow> (None, h2)
                | (True, h2) \<Rightarrow>
                    (Some \<lparr>capacity = cap, elementsArray = replicate (unat cap) [],
                           nbElements = 0, hashFunction = hashFn, compareFunction = compareFn\<rparr>, h2)))
      | _ \<Rightarrow> (None, h))"

definition hashKey :: "'k HashTable \<Rightarrow> size_t \<Rightarrow> fault + size_t" where
  "hashKey t k =
     (if k < capacity t then Inr k
      else if capacity t = 0 then Inl DivisionByZero
      else Inr (k mod capacity t))"

text \<open>
  The search loop of \<^verbatim>\<open>insertElement\<close> (lines 152--162) with \<open>cur\<close> the element under
  \<^verbatim>\<open>listElements\<close>, \<open>prev\<close> the elements before it and the third list the elements after
  it. The loop runs while \<^verbatim>\<open>listElements->next != NULL\<close>: it ends without a comparison
  when \<open>cur\<close> is the last element.
\<close>

fun insertSearch ::
  "('k \<Rightarrow> 'k \<Rightarrow> int) \<Rightarrow> 'k \<Rightarrow> 'k Element list \<Rightarrow> 'k Element \<Rightarrow> 'k Element list
     \<Rightarrow> ('k Element list \<times> 'k Element \<times> 'k Element list) option" where
  "insertSearch cmp k prev cur [] = None"
| "insertSearch cmp k prev cur (n # rest) =
     (if cmp (key cur) k = 0 then Some (prev, cur, n # rest)
      else insertSearch cmp k (prev @ [cur]) n rest)"

text \<open>Lines 143--182 of \<^verbatim>\<open>insertElement\<close>: everything after the resize step.\<close>

definition insertAtIndex ::
  "heap \<Rightarrow> 'k HashTable \<Rightarrow> 'k \<Rightarrow> ptr \<Rightarrow> fault + (ptr \<times> heap \<times> 'k HashTable)" where
  "insertAtIndex h t k v =
     (case hashKey t (hashFunction t k) of
        Inl f \<Rightarrow> Inl f
      | Inr index \<Rightarrow>
          (let i = unat index; listElements = elementsArray t ! i in
           case (case listElements of [] \<Rightarrow> None
                 | e # es \<Rightarrow> insertSearch (compareFunction t) k [] e es) of
             Some (prev, cur, rest) \<Rightarrow>
               Inr (value cur, h,
                    t\<lparr>elementsArray := (elementsArray t)[i := prev @ cur\<lparr>value := v\<rparr> # rest],
                      nbElements := nbElements t + 1\<rparr>)
           | None \<Rightarrow>
               (case alloc h of
                  (False, h') \<Rightarrow> Inr (NULL, h', t)
                | (True, h') \<Rightarrow>
                    Inr (INSERTED, h',
                         t\<lparr>elementsArray :=
                             (elementsArray t)[i := listElements @ [\<lparr>key = k, value = v\<rparr>]],
                           nbElements := nbElements t + 1\<rparr>))))"

text \<open>
  \<^verbatim>\<open>insertElement\<close>, \<^verbatim>\<open>reHashTable\<close> and the re-insertion loop of \<^verbatim>\<open>reHashTable\<close> over the
  elements of the old array, in bucket order and chain order. The first argument bounds
  the nesting depth of rehashes. \<^verbatim>\<open>reHashTable\<close> returns its \<^verbatim>\<open>int\<close> status; its
  \<^verbatim>\<open>hashTable == NULL\<close> guard cannot fire, its only caller having dereferenced the pointer.
\<close>

fun insertElement ::
  "nat \<Rightarrow> heap \<Rightarrow> 'k HashTable \<Rightarrow> 'k option \<Rightarrow> ptr \<Rightarrow> fault + (ptr \<times> heap \<times> 'k HashTable)"
and reHashTable ::
  "nat \<Rightarrow> heap \<Rightarrow> 'k HashTable \<Rightarrow> fault + (int \<times> heap \<times> 'k HashTable)"
and reinsert ::
  "nat \<Rightarrow> heap \<Rightarrow> 'k HashTable \<Rightarrow> 'k Element list \<Rightarrow> fault + (int \<times> heap \<times> 'k HashTable)"
where
  "insertElement fuel h t None v = Inr (NULL, h, t)"
| "insertElement fuel h t (Some k) v =
     (if v = NULL then Inr (NULL, h, t)
      else if loadFactorExceeded (nbElements t) (capacity t) then
        (case fuel of
           0 \<Rightarrow> Inl OutOfFuel
         | Suc fuel' \<Rightarrow>
             (case reHashTable fuel' h t of
                Inl f \<Rightarrow> Inl f
              | Inr (rc, h', t') \<Rightarrow>
                  if rc \<noteq> 0 then Inr (NULL, h', t') else insertAtIndex h' t' k v))
      else insertAtIndex h t k v)"
| "reHashTable fuel h t =
     (case alloc h of
        (False, h') \<Rightarrow> Inr (- 2, h', t)
      | (True, h') \<Rightarrow>
          reinsert fuel h'
            (t\<lparr>elementsArray := replicate (unat (capacity t * 2)) [],
               capacity := capacity t * 2, nbElements := 0\<rparr>)
            (concat (elementsArray t)))"
| "reinsert fuel h t [] = Inr (0, h, t)"
| "reinsert fuel h t (e # es) =
     (case insertElement fuel h t (Some (key e)) (value e) of
        Inl f \<Rightarrow> Inl f
      | Inr (r, h', t') \<Rightarrow> if r = NULL then Inr (- 3, h', t') else reinsert fuel h' t' es)"

text \<open>
  The search loop shared by \<^verbatim>\<open>removeElement\<close> (lines 203--208) and \<^verbatim>\<open>hasKey\<close>
  (lines 253--257): it advances while the current key differs and a next element exists.
\<close>

fun removeSearch ::
  "('k \<Rightarrow> 'k \<Rightarrow> int) \<Rightarrow> 'k \<Rightarrow> 'k Element list \<Rightarrow> 'k Element \<Rightarrow> 'k Element list
     \<Rightarrow> 'k Element list \<times> 'k Element \<times> 'k Element list" where
  "removeSearch cmp k prev cur [] = (prev, cur, [])"
| "removeSearch cmp k prev cur (n # rest) =
     (if cmp (key cur) k \<noteq> 0 then removeSearch cmp k (prev @ [cur]) n rest
      else (prev, cur, n # rest))"

definition removeElement :: "'k HashTable \<Rightarrow> 'k option \<Rightarrow> fault + (ptr \<times> 'k HashTable)" where
  "removeElement t kp =
     (case kp of
        None \<Rightarrow> Inr (NULL, t)
      | Some k \<Rightarrow>
          (case hashKey t (hashFunction t k) of
             Inl f \<Rightarrow> Inl f
           | Inr index \<Rightarrow>
               (let i = unat index in
                case elementsArray t ! i of
                  [] \<Rightarrow> Inr (NULL, t)
                | e # es \<Rightarrow>
                    (case removeSearch (compareFunction t) k [] e es of
                       (prev, cur, rest) \<Rightarrow>
                         if compareFunction t (key cur) k = 0
                         then Inr (value cur,
                                   t\<lparr>elementsArray := (elementsArray t)[i := prev @ rest],
                                     nbElements := nbElements t - 1\<rparr>)
                         else Inr (NULL, t)))))"

definition getNumElements :: "'k HashTable \<Rightarrow> size_t" where
  "getNumElements t = nbElements t"

definition hasKey :: "'k HashTable \<Rightarrow> 'k option \<Rightarrow> fault + bool" where
  "hasKey t kp =
     (case kp of
        None \<Rightarrow> Inr False
      | Some k \<Rightarrow>
          (case hashKey t (hashFunction t k) of
             Inl f \<Rightarrow> Inl f
           | Inr index \<Rightarrow>
               (case elementsArray t ! unat index of
                  [] \<Rightarrow> Inr False
                | e # es \<Rightarrow>
                    (case removeSearch (compareFunction t) k [] e es of
                       (prev, cur, rest) \<Rightarrow> Inr (compareFunction t (key cur) k = 0)))))"

text \<open>The operations on a table pointer that may be \<^verbatim>\<open>NULL\<close>.\<close>

definition insertElementAt ::
  "nat \<Rightarrow> heap \<Rightarrow> 'k HashTable option \<Rightarrow> 'k option \<Rightarrow> ptr
     \<Rightarrow> fault + (ptr \<times> heap \<times> 'k HashTable option)" where
  "insertElementAt fuel h hashTable k v =
     (case hashTable of
        None \<Rightarrow> Inr (NULL, h, None)
      | Some t \<Rightarrow>
          (case insertElement fuel h t k v of
             Inl f \<Rightarrow> Inl f
           | Inr (r, h', t') \<Rightarrow> Inr (r, h', Some t')))"

definition removeElementAt ::
  "'k HashTable option \<Rightarrow> 'k option \<Rightarrow> fault + (ptr \<times> 'k HashTable option)" where
  "removeElementAt hashTable k =
     (case hashTable of
        None \<Rightarrow> Inr (NULL, None)
      | Some t \<Rightarrow>
          (case removeElement t k of
             Inl f \<Rightarrow> Inl f
           | Inr (r, t') \<Rightarrow> Inr (r, Some t')))"

definition getNumElementsAt :: "'k HashTable option \<Rightarrow> size_t" where
  "getNumElementsAt hashTable =
     (case hashTable of None \<Rightarrow> - 1 | Some t \<Rightarrow> getNumElements t)"

definition hasKeyAt :: "'k HashTable option \<Rightarrow> 'k option \<Rightarrow> fault + bool" where
  "hasKeyAt hashTable k =
     (case hashTable of None \<Rightarrow> Inr False | Some t \<Rightarrow> hasKey t k)"

subsection \<open>Vocabulary of the properties\<close>

text \<open>
  A table is valid when it has at least one bucket and its array has \<open>capacity\<close> slots,
  as every table built by \<open>createHashTable\<close> with a positive capacity has.
\<close>

definition validTable :: "'k HashTable \<Rightarrow> bool" where
  "validTable t \<longleftrightarrow> capacity t \<noteq> 0 \<and> length (elementsArray t) = unat (capacity t)"

definition bucketOf :: "'k HashTable \<Rightarrow> 'k \<Rightarrow> nat" where
  "bucketOf t k = unat (hashFunction t k mod capacity t)"

text \<open>The element of a chain does not have a key equivalent to \<open>k\<close>.\<close>

definition differs :: "'k HashTable \<Rightarrow> 'k \<Rightarrow> 'k Element \<Rightarrow> bool" where
  "differs t k e \<longleftrightarrow> compareFunction t (key e) k \<noteq> 0"

text \<open>Keys that are machine numbers: \<open>h(k) = k\<close> and \<open>cmp(a, b) = a - b\<close>.\<close>

definition idHash :: "nat \<Rightarrow> size_t" where
  "idHash k = of_nat k"

definition subCmp :: "nat \<Rightarrow> nat \<Rightarrow> int" where
  "subCmp a b = int a - int b"

definition numTable :: "size_t \<Rightarrow> nat Element list list \<Rightarrow> size_t \<Rightarrow> nat HashTable" where
  "numTable cap arr n =
     \<lparr>capacity = cap, elementsArray = arr, nbElements = n,
      hashFunction = idHash, compareFunction = subCmp\<rparr>"

definition entry :: "'k \<Rightarrow> ptr \<Rightarrow> 'k Element" where
  "entry k v = \<lparr>key = k, value = v\<rparr>"

text \<open>No two elements of a chain have equivalent keys.\<close>

fun chainDistinct :: "('k \<Rightarrow> 'k \<Rightarrow> int) \<Rightarrow> 'k Element list \<Rightarrow> bool" where
  "chainDistinct cmp [] = True"
| "chainDistinct cmp (e # es) =
     ((\<forall>e' \<in> set es. cmp (key e) (key e') \<noteq> 0) \<and> chainDistinct cmp es)"

text \<open>The table \<open>createHashTable\<close> builds when its allocations succeed.\<close>

definition newTable :: "size_t \<Rightarrow> ('k \<Rightarrow> size_t) \<Rightarrow> ('k \<Rightarrow> 'k \<Rightarrow> int) \<Rightarrow> 'k HashTable" where
  "newTable cap hf cf =
     \<lparr>capacity = cap, elementsArray = replicate (unat cap) [], nbElements = 0,
      hashFunction = hf, compareFunction = cf\<rparr>"

text \<open>The equations of \<open>insertElement\<close> and \<open>reHashTable\<close> are unfolded on demand only.\<close>

declare insertElement.simps [simp del] reHashTable.simps [simp del]

text \<open>
  A run of insertions in which every allocation succeeds; \<open>None\<close> when an insertion
  fails.
\<close>

fun insertAll :: "nat \<Rightarrow> 'k HashTable \<Rightarrow> ('k \<times> ptr) list \<Rightarrow> 'k HashTable option" where
  "insertAll fuel t [] = Some t"
| "insertAll fuel t ((k, v) # kvs) =
     (case insertElement fuel [] t (Some k) v of
        Inl f \<Rightarrow> None
      | Inr (r, h, t') \<Rightarrow> if r = NULL then None else insertAll fuel t' kvs)"

text \<open>The keys of a list are pairwise inequivalent, in either order of comparison.\<close>

fun keysDiffer :: "('k \<Rightarrow> 'k \<Rightarrow> int) \<Rightarrow> 'k list \<Rightarrow> bool" where
  "keysDiffer cmp [] = True"
| "keysDiffer cmp (k # ks) =
     ((\<forall>k' \<in> set ks. cmp k k' \<noteq> 0 \<and> cmp k' k \<noteq> 0) \<and> keysDiffer cmp ks)"

text \<open>Every element lies in the chain of the bucket its key hashes to.\<close>

definition placed :: "'k HashTable \<Rightarrow> bool" where
  "placed t \<longleftrightarrow>
     (\<forall>i < length (elementsArray t). \<forall>e \<in> set (elementsArray t ! i). bucketOf t (key e) = i)"

text \<open>
  The table holds exactly the elements of \<open>es\<close>, each in its bucket, and counts them.
\<close>

definition holds :: "'k HashTable \<Rightarrow> 'k Element list \<Rightarrow> bool" where
  "holds t es \<longleftrightarrow>
     validTable t \<and> placed t \<and> mset (concat (elementsArray t)) = mset es
     \<and> nbElements t = of_nat (length es)"

text \<open>The pairs \<open>(0, 1), \<dots>, (n - 1, 1)\<close>, and the bucket array of capacity \<open>cap\<close> that
  holds them under \<open>h(k) = k\<close> when \<open>n \<le> cap\<close>.\<close>

definition firstKeys :: "nat \<Rightarrow> (nat \<times> ptr) list" where
  "firstKeys n = map (\<lambda>i. (i, 1)) [0..<n]"

definition singletonChains :: "nat \<Rightarrow> nat \<Rightarrow> nat Element list list" where
  "singletonChains n cap = map (\<lambda>i. if i < n then [entry i 1] else []) [0..<cap]"

text \<open>The elements a list of key-value pairs is stored as.\<close>

definition entriesOf :: "('k \<times> ptr) list \<Rightarrow> 'k Element list" where
  "entriesOf kvs = map (\<lambda>(k, v). entry k v) kvs"

section \<open>Properties of the load-factor test\<close>

lemma round_even_of_int: "round_even (of_int n) = n"
  by (simp add: round_even_def)

lemma round_even_lower: "\<lfloor>x\<rfloor> \<le> round_even x"
  by (simp add: round_even_def Let_def)

lemma round_even_upper: "round_even x \<le> \<lfloor>x\<rfloor> + 1"
  by (simp add: round_even_def Let_def)

lemma round_even_mono: 
  assumes "x \<le> y" shows "round_even x \<le> round_even y"
proof (cases "\<lfloor>x\<rfloor> = \<lfloor>y\<rfloor>")
  case True
  have "x - of_int \<lfloor>x\<rfloor> \<le> y - of_int \<lfloor>y\<rfloor>" using assms True by simp
  then show ?thesis using True by (auto simp: round_even_def Let_def)
next
  case False
  have "\<lfloor>x\<rfloor> \<le> \<lfloor>y\<rfloor>" using assms by (rule floor_mono)
  with False have "\<lfloor>x\<rfloor> + 1 \<le> \<lfloor>y\<rfloor>" by simp
  then show ?thesis using round_even_upper[of x] round_even_lower[of y] by linarith
qed

lemma ilog2_bounds:
  assumes "0 < x"
  shows "2 powi ilog2 x \<le> x" and "x < 2 powi (ilog2 x + 1)"
proof -
  have "2 powi ilog2 x \<le> x \<and> x < 2 powi (ilog2 x + 1)"
  proof (cases "1 \<le> x")
    case True
    define n where "n = \<lfloor>x\<rfloor>"
    have n1: "1 \<le> n" using True by (simp add: n_def)
    then have n0: "0 < n" by simp
    have L: "1 \<le> bitlen n" using n0 bitlen_nonneg[of n] bitlen_eq_zero_iff[of n] by linarith
    from bitlen_bounds[OF n0] have b1: "2 ^ nat (bitlen n - 1) \<le> n" and b2: "n < 2 ^ nat (bitlen n)" by auto
    have e: "ilog2 x = bitlen n - 1" using True by (simp add: ilog2_def n_def)
    have "(2::rat) powi (bitlen n - 1) = 2 ^ nat (bitlen n - 1)" using L by (simp add: power_int_nonneg_exp)
    also have "\<dots> = of_int (2 ^ nat (bitlen n - 1))" by simp
    also have "\<dots> \<le> of_int n" using b1 by (simp only: of_int_le_iff)
    also have "\<dots> \<le> x" by (simp add: n_def)
    finally have A: "2 powi ilog2 x \<le> x" using e by simp
    have "n + 1 \<le> 2 ^ nat (bitlen n)" using b2 by simp
    then have "(of_int (n + 1) :: rat) \<le> of_int (2 ^ nat (bitlen n))" by (simp only: of_int_le_iff)
    moreover have "x < of_int (n + 1)" unfolding n_def by linarith
    ultimately have "x < of_int (2 ^ nat (bitlen n))" by linarith
    also have "\<dots> = 2 powi (bitlen n)" using L by (simp add: power_int_nonneg_exp)
    finally have B: "x < 2 powi (ilog2 x + 1)" using e by simp
    from A B show ?thesis ..
  next
    case False
    define y where "y = 1 / x"
    have y1: "1 < y" using False assms by (simp add: y_def)
    define m where "m = \<lceil>y\<rceil> - 1"
    have m1: "1 \<le> m" using y1 unfolding m_def by linarith
    then have m0: "0 < m" by simp
    have my: "of_int m < y" "y \<le> of_int m + 1" unfolding m_def by linarith+
    have K: "1 \<le> bitlen m" using m0 bitlen_nonneg[of m] bitlen_eq_zero_iff[of m] by linarith
    from bitlen_bounds[OF m0] have b1: "2 ^ nat (bitlen m - 1) \<le> m" and b2: "m < 2 ^ nat (bitlen m)" by auto
    have e: "ilog2 x = - bitlen m" using False by (simp add: ilog2_def m_def y_def)
    have xy: "x = 1 / y" using assms by (simp add: y_def)
    have "m + 1 \<le> 2 ^ nat (bitlen m)" using b2 by simp
    then have "(of_int (m + 1) :: rat) \<le> of_int (2 ^ nat (bitlen m))" by (simp only: of_int_le_iff)
    then have "of_int m + 1 \<le> (2::rat) ^ nat (bitlen m)" by simp
    then have "y \<le> 2 ^ nat (bitlen m)" using my by linarith
    then have "1 / (2 ^ nat (bitlen m)) \<le> 1 / y" using y1 by (simp add: frac_le)
    moreover have "(2::rat) powi (- bitlen m) = 1 / 2 ^ nat (bitlen m)" 
      using K by (simp add: power_int_minus_divide power_int_nonneg_exp)
    ultimately have A: "2 powi ilog2 x \<le> x" using e xy by simp
    have "(of_int (2 ^ nat (bitlen m - 1)) :: rat) \<le> of_int m" using b1 by (simp only: of_int_le_iff)
    then have "(2::rat) ^ nat (bitlen m - 1) \<le> of_int m" by simp
    then have "2 ^ nat (bitlen m - 1) < y" using my by linarith
    then have "1 / y < 1 / 2 ^ nat (bitlen m - 1)" by (simp add: frac_less2)
    moreover have "(2::rat) powi (- bitlen m + 1) = 1 / 2 ^ nat (bitlen m - 1)"
    proof -
      have "(2::rat) powi (- bitlen m + 1) = 2 powi (- (bitlen m - 1))" by simp
      also have "\<dots> = 1 / 2 powi (bitlen m - 1)" by (rule power_int_minus_divide)
      also have "\<dots> = 1 / 2 ^ nat (bitlen m - 1)" using K by (simp add: power_int_nonneg_exp)
      finally show ?thesis .
    qed
    ultimately have B: "x < 2 powi (ilog2 x + 1)" using e xy by simp
    from A B show ?thesis ..
  qed
  then show "2 powi ilog2 x \<le> x" and "x < 2 powi (ilog2 x + 1)" by auto
qed

lemma pow2_less_imp: "(2::rat) powi a < 2 powi b \<Longrightarrow> a < b"
proof (rule ccontr)
  assume h: "(2::rat) powi a < 2 powi b" and "\<not> a < b"
  then have "b \<le> a" by simp
  then have "(2::rat) powi b \<le> 2 powi a" by (intro power_int_increasing) auto
  with h show False by simp
qed

lemma ilog2_unique:
  assumes "2 powi e \<le> x" "x < 2 powi (e + 1)"
  shows "ilog2 x = e"
proof -
  have x0: "0 < x" using assms(1) zero_less_power_int[of "2::rat" e] by linarith
  note b = ilog2_bounds[OF x0]
  have "(2::rat) powi e < 2 powi (ilog2 x + 1)" using assms(1) b(2) by linarith
  then have "e < ilog2 x + 1" by (rule pow2_less_imp)
  moreover have "(2::rat) powi ilog2 x < 2 powi (e + 1)" using assms(2) b(1) by linarith
  then have "ilog2 x < e + 1" by (rule pow2_less_imp)
  ultimately show ?thesis by simp
qed

lemma float_round_pos:
  assumes "2 powi e \<le> x" "x < 2 powi (e + 1)"
  shows "float_round x = of_int (round_even (x / 2 powi (e - 23))) * 2 powi (e - 23)"
proof -
  have x0: "0 < x" using assms(1) zero_less_power_int[of "2::rat" e] by linarith
  have "ilog2 x = e" using assms by (rule ilog2_unique)
  then show ?thesis using x0 by (simp add: float_round_def Let_def)
qed

lemma float_round_minus: "float_round (- x) = - float_round x"
  by (simp add: float_round_def Let_def sgn_minus)

lemma float_round_0: "float_round 0 = 0"
  by (simp add: float_round_def)

lemma float_round_bounds:
  assumes "2 powi e \<le> x" "x < 2 powi (e + 1)"
  shows "2 powi e \<le> float_round x" and "float_round x \<le> 2 powi (e + 1)"
proof -
  let ?u = "(2::rat) powi (e - 23)"
  have u0: "0 < ?u" by simp
  have s1: "2 powi e = 2 ^ 23 * ?u" 
    by (simp add: power_int_diff)
  have s2: "2 powi (e + 1) = 2 ^ 24 * ?u" 
    by (simp add: power_int_diff power_int_add)
  have "of_int (2 ^ 23) \<le> x / ?u" using assms(1) u0 s1 by (simp add: pos_le_divide_eq)
  then have "round_even (of_int (2 ^ 23)) \<le> round_even (x / ?u)" by (rule round_even_mono)
  then have lo: "2 ^ 23 \<le> round_even (x / ?u)" by (simp only: round_even_of_int)
  have "x / ?u \<le> of_int (2 ^ 24)" using assms(2) u0 s2 by (simp add: pos_divide_le_eq)
  then have "round_even (x / ?u) \<le> round_even (of_int (2 ^ 24))" by (rule round_even_mono)
  then have hi: "round_even (x / ?u) \<le> 2 ^ 24" by (simp only: round_even_of_int)
  have fr: "float_round x = of_int (round_even (x / ?u)) * ?u" using assms by (rule float_round_pos)
  have "(of_int (2 ^ 23) :: rat) \<le> of_int (round_even (x / ?u))" using lo by (simp only: of_int_le_iff)
  then have "of_int (2 ^ 23) * ?u \<le> of_int (round_even (x / ?u)) * ?u" using u0 by (simp only: mult_le_cancel_right_pos)
  then show "2 powi e \<le> float_round x" using fr s1 by simp
  have "(of_int (round_even (x / ?u)) :: rat) \<le> of_int (2 ^ 24)" using hi by (simp only: of_int_le_iff)
  then have "of_int (round_even (x / ?u)) * ?u \<le> of_int (2 ^ 24) * ?u" using u0 by (simp only: mult_le_cancel_right_pos)
  then show "float_round x \<le> 2 powi (e + 1)" using fr s2 by simp
qed

lemma float_round_pos_mono:
  assumes x0: "0 < x" and xy: "x \<le> y"
  shows "float_round x \<le> float_round y"
proof -
  have y0: "0 < y" using x0 xy by simp
  note bx = ilog2_bounds[OF x0] and by' = ilog2_bounds[OF y0]
  have "(2::rat) powi ilog2 x < 2 powi (ilog2 y + 1)" using bx(1) xy by'(2) by linarith
  then have le: "ilog2 x \<le> ilog2 y" using pow2_less_imp by fastforce
  show ?thesis
  proof (cases "ilog2 x = ilog2 y")
    case True
    let ?u = "(2::rat) powi (ilog2 y - 23)"
    have u0: "0 < ?u" by simp
    have fx: "float_round x = of_int (round_even (x / ?u)) * ?u" 
      using float_round_pos[OF bx] True by simp
    have fy: "float_round y = of_int (round_even (y / ?u)) * ?u" 
      using float_round_pos[OF by'] by simp
    have "x / ?u \<le> y / ?u" using xy u0 by (simp add: divide_right_mono)
    then have "round_even (x / ?u) \<le> round_even (y / ?u)" by (rule round_even_mono)
    then have "(of_int (round_even (x / ?u)) :: rat) \<le> of_int (round_even (y / ?u))" by (simp only: of_int_le_iff)
    then show ?thesis unfolding fx fy using u0 by (simp only: mult_le_cancel_right_pos)
  next
    case False
    with le have "ilog2 x + 1 \<le> ilog2 y" by simp
    then have "(2::rat) powi (ilog2 x + 1) \<le> 2 powi ilog2 y" by (intro power_int_increasing) auto
    then show ?thesis using float_round_bounds(2)[OF bx] float_round_bounds(1)[OF by'] by linarith
  qed
qed

lemma float_round_pos_nonneg: 
  assumes "0 < x" shows "0 < float_round x"
proof -
  note b = ilog2_bounds[OF assms]
  have "(0::rat) < 2 powi ilog2 x" by simp
  then show ?thesis using float_round_bounds(1)[OF b] by linarith
qed

lemma float_round_mono:
  assumes "x \<le> y" shows "float_round x \<le> float_round y"
proof -
  consider "0 < x" | "x \<le> 0" "0 \<le> y" | "y < 0" using assms by linarith
  then show ?thesis
  proof cases
    case 1 then show ?thesis using assms by (rule float_round_pos_mono)
  next
    case 2
    have "float_round x \<le> 0"
    proof (cases "x = 0")
      case True then show ?thesis by (simp add: float_round_0)
    next
      case False
      then have "0 < - x" using 2 by simp
      then have "0 < float_round (- x)" by (rule float_round_pos_nonneg)
      then show ?thesis by (simp add: float_round_minus)
    qed
    moreover have "0 \<le> float_round y"
    proof (cases "y = 0")
      case True then show ?thesis by (simp add: float_round_0)
    next
      case False
      then have "0 < y" using 2 by simp
      then have "0 < float_round y" by (rule float_round_pos_nonneg)
      then show ?thesis by simp
    qed
    ultimately show ?thesis by linarith
  next
    case 3
    then have "0 < - y" "- y \<le> - x" using assms by simp_all
    then have "float_round (- y) \<le> float_round (- x)" by (rule float_round_pos_mono)
    then show ?thesis by (simp add: float_round_minus)
  qed
qed

lemma float_round_exact_pos:
  assumes m0: "0 < m" and m24: "m < 2 ^ 24"
  shows "float_round (of_int m * 2 powi k) = of_int m * 2 powi k"
proof -
  let ?x = "of_int m * (2::rat) powi k"
  have x0: "0 < ?x" using m0 by simp
  note b = ilog2_bounds[OF x0]
  define e where "e = ilog2 ?x"
  have "(of_int m :: rat) < of_int (2 ^ 24)" using m24 by (simp only: of_int_less_iff)
  then have "?x < 2 ^ 24 * 2 powi k" by simp
  also have "\<dots> = 2 powi (24 + k)" by (simp add: power_int_add)
  finally have "(2::rat) powi e < 2 powi (24 + k)" using b(1) unfolding e_def by linarith
  then have "e < 24 + k" by (rule pow2_less_imp)
  then have d0: "0 \<le> k - (e - 23)" by simp
  have "?x / 2 powi (e - 23) = of_int m * 2 powi (k - (e - 23))" 
    by (simp add: power_int_diff)
  also have "\<dots> = of_int m * 2 ^ nat (k - (e - 23))" using d0 by (simp add: power_int_nonneg_exp)
  also have "\<dots> = of_int (m * 2 ^ nat (k - (e - 23)))" by simp
  finally have q: "?x / 2 powi (e - 23) = of_int (m * 2 ^ nat (k - (e - 23)))" .
  have "float_round ?x = of_int (round_even (?x / 2 powi (e - 23))) * 2 powi (e - 23)"
    using float_round_pos[OF b] unfolding e_def by simp
  also have "\<dots> = (?x / 2 powi (e - 23)) * 2 powi (e - 23)"
    unfolding q round_even_of_int ..
  also have "\<dots> = ?x" by simp
  finally show ?thesis .
qed

lemma float_round_exact:
  assumes "\<bar>m\<bar> < 2 ^ 24"
  shows "float_round (of_int m * 2 powi k) = of_int m * 2 powi k"
proof -
  consider "0 < m" | "m = 0" | "m < 0" by linarith
  then show ?thesis
  proof cases
    case 1 then show ?thesis using assms by (intro float_round_exact_pos) auto
  next
    case 2 then show ?thesis by (simp add: float_round_0)
  next
    case 3
    then have "float_round (of_int (- m) * 2 powi k) = of_int (- m) * 2 powi k" 
      using assms by (intro float_round_exact_pos) auto
    then show ?thesis using float_round_minus[of "of_int m * 2 powi k"] by simp
  qed
qed

lemma float_round_double: "float_round (2 * x) = 2 * float_round x"
proof -
  have pos: "float_round (2 * x) = 2 * float_round x" if x0: "0 < x" for x
  proof -
    note b = ilog2_bounds[OF x0]
    define e where "e = ilog2 x"
    have b2: "2 powi (e + 1) \<le> 2 * x" "2 * x < 2 powi (e + 1 + 1)"
      using b unfolding e_def by (simp_all add: power_int_add)
    have "float_round (2 * x) = of_int (round_even (2 * x / 2 powi (e + 1 - 23))) * 2 powi (e + 1 - 23)"
      using b2 by (rule float_round_pos)
    moreover have "2 * x / 2 powi (e + 1 - 23) = x / 2 powi (e - 23)" 
      by (simp add: power_int_diff power_int_add)
    moreover have "(2::rat) powi (e + 1 - 23) = 2 * 2 powi (e - 23)"
      by (simp add: power_int_diff power_int_add)
    moreover have "float_round x = of_int (round_even (x / 2 powi (e - 23))) * 2 powi (e - 23)"
      using float_round_pos[OF b] unfolding e_def by simp
    ultimately show ?thesis by simp
  qed
  consider "0 < x" | "x = 0" | "x < 0" by linarith
  then show ?thesis
  proof cases
    case 1 then show ?thesis by (rule pos)
  next
    case 2 then show ?thesis by (simp add: float_round_0)
  next
    case 3
    then have "float_round (2 * (- x)) = 2 * float_round (- x)" by (intro pos) simp
    then show ?thesis using float_round_minus[of x] float_round_minus[of "2 * x"] by simp
  qed
qed

lemma LOAD_FACTOR_is_rounded: "float_round (7 / 10) = LOAD_FACTOR"
proof -
  have "float_round (7 / 10) = of_int (round_even ((7 / 10) / 2 powi (- 1 - 23))) * 2 powi (- 1 - 23)"
    by (rule float_round_pos) (simp_all add: power_int_minus_divide)
  also have "\<dots> = LOAD_FACTOR"
  proof -
    have f: "\<lfloor>58720256 / 5 :: rat\<rfloor> = 11744051" by (rule floor_unique) simp_all
    show ?thesis by (simp add: power_int_minus_divide round_even_def Let_def LOAD_FACTOR_def f)
  qed
  finally show ?thesis .
qed

lemma round_even_below: 
  assumes "x < of_int n + 1 / 2" shows "round_even x \<le> n"
proof -
  have "\<lfloor>x\<rfloor> \<le> n" using assms by (simp add: floor_le_iff)
  then consider "\<lfloor>x\<rfloor> < n" | "\<lfloor>x\<rfloor> = n" by linarith
  then show ?thesis
  proof cases
    case 1 then show ?thesis using round_even_upper[of x] by linarith
  next
    case 2 
    then have "x - of_int \<lfloor>x\<rfloor> < 1 / 2" using assms by simp
    then show ?thesis using 2 by (simp add: round_even_def Let_def)
  qed
qed

lemma float_round_threshold: "float_round threshold = 11744054 / 16777216"
proof -
  have "float_round threshold = of_int (round_even (threshold / 2 powi (- 1 - 23))) * 2 powi (- 1 - 23)"
    by (rule float_round_pos) (simp_all add: power_int_minus_divide threshold_def)
  also have "\<dots> = 11744054 / 16777216"
  proof -
    have f: "\<lfloor>23488107 / 2 :: rat\<rfloor> = 11744053" by (rule floor_unique) simp_all
    show ?thesis by (simp add: power_int_minus_divide round_even_def Let_def threshold_def f)
  qed
  finally show ?thesis .
qed

lemma exceeds_above:
  assumes "threshold \<le> q"
  shows "FLT_EPSILON < float_round (float_round q - LOAD_FACTOR)"
proof -
  have "float_round threshold \<le> float_round q" using assms by (rule float_round_mono)
  then have "3 / 16777216 \<le> float_round q - LOAD_FACTOR" 
    by (simp add: float_round_threshold LOAD_FACTOR_def)
  then have "float_round (3 / 16777216) \<le> float_round (float_round q - LOAD_FACTOR)"
    by (rule float_round_mono)
  moreover have "float_round (of_int 3 * 2 powi (- 24)) = of_int 3 * 2 powi (- 24)"
    by (rule float_round_exact) simp
  then have "float_round (3 / 16777216) = 3 / 16777216" by (simp add: power_int_minus_divide)
  ultimately show ?thesis by (simp add: FLT_EPSILON_def)
qed

lemma exceeds_below:
  assumes "q < threshold"
  shows "\<not> FLT_EPSILON < float_round (float_round q - LOAD_FACTOR)"
proof -
  have fq: "float_round q \<le> 11744053 / 16777216"
  proof (cases "1 / 2 \<le> q")
    case True
    have "float_round q = of_int (round_even (q / 2 powi (- 1 - 23))) * 2 powi (- 1 - 23)"
      using True assms by (intro float_round_pos) (simp_all add: power_int_minus_divide threshold_def)
    then have eq: "float_round q = of_int (round_even (q * 16777216)) / 16777216"
      by (simp add: power_int_minus_divide)
    have "q * 16777216 < of_int 11744053 + 1 / 2" using assms by (simp add: threshold_def)
    then have "round_even (q * 16777216) \<le> 11744053" by (rule round_even_below)
    then have "(of_int (round_even (q * 16777216)) :: rat) \<le> of_int 11744053" by (simp only: of_int_le_iff)
    then show ?thesis unfolding eq by simp
  next
    case False
    then have "float_round q \<le> float_round (1 / 2)" by (intro float_round_mono) simp
    moreover have "float_round (of_int 1 * 2 powi (- 1)) = of_int 1 * 2 powi (- 1)"
      by (rule float_round_exact) simp
    then have "float_round (1 / 2) = 1 / 2" by (simp add: power_int_minus_divide)
    ultimately show ?thesis by simp
  qed
  then have "float_round q - LOAD_FACTOR \<le> 2 / 16777216" by (simp add: LOAD_FACTOR_def)
  then have "float_round (float_round q - LOAD_FACTOR) \<le> float_round (2 / 16777216)"
    by (rule float_round_mono)
  moreover have "float_round (of_int 1 * 2 powi (- 23)) = of_int 1 * 2 powi (- 23)"
    by (rule float_round_exact) simp
  then have "float_round (2 / 16777216) = 1 / 8388608" by (simp add: power_int_minus_divide)
  ultimately show ?thesis by (simp add: FLT_EPSILON_def)
qed

lemma float_round_of_nat:
  assumes "n < 2 ^ 24" shows "float_round (of_nat n) = of_nat n"
proof -
  have "float_round (of_int (int n) * 2 powi 0) = of_int (int n) * 2 powi 0"
    using assms by (intro float_round_exact) simp
  then show ?thesis by simp
qed

lemma float_of_size_exact: 
  "unat n < 2 ^ 24 \<Longrightarrow> float_of_size n = of_nat (unat n)"
  unfolding float_of_size_def by (rule float_round_of_nat)

lemma float_of_size_pos: 
  assumes "n \<noteq> 0" shows "0 < float_of_size n"
proof -
  have "0 < unat n" using assms by (simp add: unat_gt_0)
  then have "(0::rat) < of_nat (unat n)" by (simp only: of_nat_0_less_iff)
  then show ?thesis unfolding float_of_size_def by (rule float_round_pos_nonneg)
qed

lemma float_of_size_0: "float_of_size 0 = 0"
  by (simp add: float_of_size_def float_round_0)

lemma float_of_size_mono: "unat m \<le> unat n \<Longrightarrow> float_of_size m \<le> float_of_size n"
  unfolding float_of_size_def by (rule float_round_mono) (simp only: of_nat_le_iff)

lemma loadFactorExceeded_small:
  assumes a: "unat (nb + 1) < 2 ^ 24" and b: "unat cap < 2 ^ 24" and c: "cap \<noteq> 0"
  shows "loadFactorExceeded nb cap \<longleftrightarrow> 23488107 * unat cap \<le> 33554432 * unat (nb + 1)"
proof -
  define A where "A = unat (nb + 1)"
  define B where "B = unat cap"
  have fa: "float_of_size (nb + 1) = of_nat A" unfolding A_def using a by (rule float_of_size_exact)
  have fb: "float_of_size cap = of_nat B" unfolding B_def using b by (rule float_of_size_exact)
  have B0: "0 < B" unfolding B_def using c by (simp add: unat_gt_0)
  let ?q = "(of_nat A :: rat) / of_nat B"
  have ex: "loadFactorExceeded nb cap \<longleftrightarrow> FLT_EPSILON < float_round (float_round ?q - LOAD_FACTOR)"
    unfolding loadFactorExceeded_def Let_def fa fb using B0 by simp
  have "threshold \<le> ?q \<longleftrightarrow> threshold * of_nat B \<le> of_nat A"
    using B0 by (simp add: pos_le_divide_eq)
  also have "\<dots> \<longleftrightarrow> (of_nat (23488107 * B) :: rat) \<le> of_nat (33554432 * A)"
    by (simp add: threshold_def mult.commute)
  also have "\<dots> \<longleftrightarrow> 23488107 * B \<le> 33554432 * A"
    by (simp only: of_nat_le_iff)
  finally have th: "threshold \<le> ?q \<longleftrightarrow> 23488107 * B \<le> 33554432 * A" .
  have "loadFactorExceeded nb cap \<longleftrightarrow> 23488107 * B \<le> 33554432 * A"
  proof (cases "threshold \<le> ?q")
    case True then show ?thesis using ex th exceeds_above by blast
  next
    case False 
    then have "?q < threshold" by simp
    then show ?thesis using ex th exceeds_below False by blast
  qed
  then show ?thesis unfolding A_def B_def .
qed

lemma loadFactorExceeded_full:
  assumes "unat cap \<le> unat (nb + 1)" and c: "cap \<noteq> 0"
  shows "loadFactorExceeded nb cap"
proof -
  have b0: "0 < float_of_size cap" using c by (rule float_of_size_pos)
  have le: "float_of_size cap \<le> float_of_size (nb + 1)" using assms(1) by (rule float_of_size_mono)
  have "threshold * float_of_size cap \<le> float_of_size (nb + 1)" 
    using le b0 by (simp add: threshold_def)
  then have "threshold \<le> float_of_size (nb + 1) / float_of_size cap" 
    using b0 by (simp add: pos_le_divide_eq)
  then have "FLT_EPSILON < float_round (float_round (float_of_size (nb + 1) / float_of_size cap) - LOAD_FACTOR)"
    by (rule exceeds_above)
  then show ?thesis using b0 by (simp add: loadFactorExceeded_def Let_def)
qed

lemma loadFactorExceeded_half:
  assumes "2 * unat (nb + 1) \<le> unat cap"
  shows "\<not> loadFactorExceeded nb cap"
proof (cases "cap = 0")
  case True
  then have "unat (nb + 1) = 0" using assms by simp
  then have "nb + 1 = 0" by (simp only: unat_eq_0)
  then show ?thesis using True by (simp add: loadFactorExceeded_def float_of_size_0)
next
  case False
  have b0: "0 < float_of_size cap" using False by (rule float_of_size_pos)
  define A where "A = unat (nb + 1)"
  define B where "B = unat cap"
  have "(of_nat (2 * A) :: rat) \<le> of_nat B" using assms unfolding A_def B_def by (simp only: of_nat_le_iff)
  then have "float_round (of_nat (2 * A)) \<le> float_round (of_nat B)" by (rule float_round_mono)
  moreover have "float_round (of_nat (2 * A)) = 2 * float_round (of_nat A)"
    using float_round_double[of "of_nat A"] by simp
  ultimately have "2 * float_of_size (nb + 1) \<le> float_of_size cap" 
    unfolding float_of_size_def A_def B_def by simp
  then have "float_of_size (nb + 1) < threshold * float_of_size cap" 
    using b0 by (simp add: threshold_def)
  then have "float_of_size (nb + 1) / float_of_size cap < threshold" 
    using b0 by (simp add: pos_divide_less_eq)
  then have "\<not> FLT_EPSILON < float_round (float_round (float_of_size (nb + 1) / float_of_size cap) - LOAD_FACTOR)"
    by (rule exceeds_below)
  then show ?thesis using b0 by (simp add: loadFactorExceeded_def Let_def)
qed

section \<open>Bucket index\<close>

lemma hashKey_mod: "capacity t \<noteq> 0 \<Longrightarrow> hashKey t h = Inr (h mod capacity t)"
  by (simp add: hashKey_def word_mod_less_divisor mod_word_less)

lemma hashKey_zero: "capacity t = 0 \<Longrightarrow> hashKey t h = Inl DivisionByZero"
  by (simp add: hashKey_def)

lemma removeSearch_concat:
  "removeSearch cmp k prev cur rest = (p, c, r) \<Longrightarrow> p @ c # r = prev @ cur # rest"
  by (induction rest arbitrary: prev cur) (auto split: if_splits)

lemma removeSearch_found:
  "removeSearch cmp k prev cur rest = (p, c, r) \<Longrightarrow>
     (cmp (key c) k = 0) = (\<exists>e \<in> set (cur # rest). cmp (key e) k = 0)"
  by (induction rest arbitrary: prev cur) (auto split: if_splits)

lemma hasKey_iff:
  assumes "capacity t \<noteq> 0"
  shows "hasKey t (Some k) =
     Inr (\<exists>e \<in> set (elementsArray t ! bucketOf t k). compareFunction t (key e) k = 0)"
proof (cases "elementsArray t ! bucketOf t k")
  case Nil
  then show ?thesis using assms by (simp add: hasKey_def hashKey_mod bucketOf_def)
next
  case (Cons e es)
  obtain p c r where s: "removeSearch (compareFunction t) k [] e es = (p, c, r)"
    by (cases "removeSearch (compareFunction t) k [] e es") auto
  from removeSearch_found[OF s] show ?thesis
    using assms Cons s by (simp add: hasKey_def hashKey_mod bucketOf_def)
qed


section \<open>Evaluation on concrete tables\<close>

lemma replicate_numeral: "replicate (numeral v) x = x # replicate (numeral v - 1) x"
  by (simp add: numeral_eq_Suc)

lemma list_update_Cons_numeral: "(x # xs)[numeral v := y] = x # xs[numeral v - 1 := y]"
  by (simp add: numeral_eq_Suc)

lemmas table_eval =
  numTable_def entry_def idHash_def subCmp_def hashKey_def removeElement_def hasKey_def
  insertAtIndex_def bucketOf_def Let_def NULL_def INSERTED_def word_mod_def
  createHashTable_def getNumElements_def differs_def validTable_def newTable_def
  insertElement.simps reHashTable.simps
  loadFactorExceeded_small replicate_numeral list_update_Cons_numeral

section \<open>Inserting a key that sits at the end of its chain\<close>

text \<open>
  Claim C1. The claim is that inserting a key already stored replaces its value and returns
  the old one. The search loop of \<open>insertElement\<close> stops at the last element of the chain
  without comparing it: after \<open>(1, 10)\<close> has been inserted into an empty table of capacity
  4, inserting \<open>(1, 20)\<close> returns \<^verbatim>\<open>(void*)-1\<close>, not 10, and links a second element with
  key 1 behind the first.
\<close>

theorem duplicate_of_last_element_is_appended:
  "createHashTable [] 4 (Some idHash) (Some subCmp) = (Some (numTable 4 [[], [], [], []] 0), [])
   \<and> insertElement fuel [] (numTable 4 [[], [], [], []] 0) (Some 1) 10
        = Inr (INSERTED, [], numTable 4 [[], [entry 1 10], [], []] 1)
   \<and> insertElement fuel [] (numTable 4 [[], [entry 1 10], [], []] 1) (Some 1) 20
        = Inr (INSERTED, [], numTable 4 [[], [entry 1 10, entry 1 20], [], []] 2)
   \<and> INSERTED \<noteq> 10
   \<and> subCmp 1 1 = 0"
  by (simp add: table_eval)

text \<open>
  Claim C2. The claim is that no chain of a table reached from \<open>createHashTable\<close> holds two
  elements with equivalent keys. The two insertions of key 1 above are such a sequence, and
  chain 1 of the table they reach holds two elements whose keys compare equal.
\<close>

theorem reachable_chain_with_equivalent_keys:
  "createHashTable [] 4 (Some idHash) (Some subCmp) = (Some (numTable 4 [[], [], [], []] 0), [])
   \<and> insertElement fuel [] (numTable 4 [[], [], [], []] 0) (Some 1) 10
        = Inr (INSERTED, [], numTable 4 [[], [entry 1 10], [], []] 1)
   \<and> insertElement fuel [] (numTable 4 [[], [entry 1 10], [], []] 1) (Some 1) 20
        = Inr (INSERTED, [], numTable 4 [[], [entry 1 10, entry 1 20], [], []] 2)
   \<and> elementsArray (numTable 4 [[], [entry 1 10, entry 1 20], [], []] 2) ! 1
        = [entry 1 10, entry 1 20]
   \<and> \<not> chainDistinct subCmp [entry 1 10, entry 1 20]"
  by (simp add: table_eval)

section \<open>The element count\<close>

text \<open>
  Claim C3. The claim is that the stored count equals the number of elements linked in the
  chains. The replacement branch of \<open>insertElement\<close> increments \<open>nbElements\<close> although it
  links no element: in a table of capacity 8, inserting keys 1 and 9 (both in bucket 1)
  and then key 1 again replaces the value of the first element and leaves the count at 3
  with 2 elements stored.
\<close>

theorem replacement_increments_count:
  "createHashTable [] 8 (Some idHash) (Some subCmp)
        = (Some (numTable 8 [[], [], [], [], [], [], [], []] 0), [])
   \<and> insertElement fuel [] (numTable 8 [[], [], [], [], [], [], [], []] 0) (Some 1) 10
        = Inr (INSERTED, [], numTable 8 [[], [entry 1 10], [], [], [], [], [], []] 1)
   \<and> insertElement fuel [] (numTable 8 [[], [entry 1 10], [], [], [], [], [], []] 1) (Some 9) 20
        = Inr (INSERTED, [], numTable 8 [[], [entry 1 10, entry 9 20], [], [], [], [], [], []] 2)
   \<and> insertElement fuel [] (numTable 8 [[], [entry 1 10, entry 9 20], [], [], [], [], [], []] 2)
          (Some 1) 30
        = Inr (10, [], numTable 8 [[], [entry 1 30, entry 9 20], [], [], [], [], [], []] 3)
   \<and> getNumElements (numTable 8 [[], [entry 1 30, entry 9 20], [], [], [], [], [], []] 3) = 3
   \<and> length (concat (elementsArray
          (numTable 8 [[], [entry 1 30, entry 9 20], [], [], [], [], [], []] 3))) = 2"
  by (simp add: table_eval)

section \<open>Insertion followed by removal\<close>

text \<open>
  Claim C8. The claim is that after a successful \<open>Insert(t, k, v)\<close> a \<open>Remove(t, k)\<close> leaves
  \<open>Contains(t, k)\<close> false. When \<open>k\<close> is already the last element of its chain the insertion
  links a second element with that key, the removal unlinks the first one only, and the
  key is still found: here with \<open>t\<close> the table holding \<open>(1, 10)\<close>.
\<close>

theorem key_still_present_after_insert_and_remove:
  "insertElement fuel [] (numTable 4 [[], [entry 1 10], [], []] 1) (Some 1) 20
        = Inr (INSERTED, [], numTable 4 [[], [entry 1 10, entry 1 20], [], []] 2)
   \<and> removeElement (numTable 4 [[], [entry 1 10, entry 1 20], [], []] 2) (Some 1)
        = Inr (10, numTable 4 [[], [entry 1 20], [], []] 1)
   \<and> hasKey (numTable 4 [[], [entry 1 20], [], []] 1) (Some 1) = Inr True
   \<and> getNumElements (numTable 4 [[], [entry 1 20], [], []] 1) = 2 - 1"
  by (simp add: table_eval)


section \<open>A table of capacity zero\<close>

lemma createHashTable_ok:
  "alloc h = (True, h1) \<Longrightarrow> alloc h1 = (True, h2) \<Longrightarrow>
     createHashTable h cap (Some hf) (Some cf) = (Some (newTable cap hf cf), h2)"
  by (simp add: createHashTable_def newTable_def)

lemma loadFactorExceeded_zero_capacity: "loadFactorExceeded 0 0"
proof -
  have "float_of_size 1 = of_nat (unat (1 :: size_t))" by (rule float_of_size_exact) simp
  then show ?thesis by (simp add: loadFactorExceeded_def float_of_size_0)
qed

text \<open>
  Claim C10. \<open>createHashTable\<close> does not inspect its capacity argument: with both callbacks
  present and both allocations successful, capacity 0 yields a table of capacity 0. On
  that table \<open>removeElement\<close> and \<open>hasKey\<close> with a non-null key, and \<open>insertElement\<close> with a
  non-null key and value whose rehash obtains its (empty) array, all reach \<^verbatim>\<open>key % 0\<close> in
  \<open>hashKey\<close>.
\<close>

theorem zero_capacity_reaches_modulo_by_zero:
  assumes "alloc h = (True, h1)" and "alloc h1 = (True, h2)"
  shows "createHashTable h 0 (Some hf) (Some cf) = (Some (newTable 0 hf cf), h2)
    \<and> capacity (newTable 0 hf cf) = 0
    \<and> removeElement (newTable 0 hf cf) (Some k) = Inl DivisionByZero
    \<and> hasKey (newTable 0 hf cf) (Some k) = Inl DivisionByZero
    \<and> (v \<noteq> NULL \<and> alloc h2 = (True, h3) \<longrightarrow>
          insertElement (Suc fuel) h2 (newTable 0 hf cf) (Some k) v = Inl DivisionByZero)"
proof -
  have c: "capacity (newTable 0 hf cf) = 0" by (simp add: newTable_def)
  have n: "nbElements (newTable 0 hf cf) = 0" "elementsArray (newTable 0 hf cf) = []"
    by (simp_all add: newTable_def)
  have "removeElement (newTable 0 hf cf) (Some k) = Inl DivisionByZero"
    by (simp add: removeElement_def hashKey_zero[OF c])
  moreover have "hasKey (newTable 0 hf cf) (Some k) = Inl DivisionByZero"
    by (simp add: hasKey_def hashKey_zero[OF c])
  moreover have "insertElement (Suc fuel) h2 (newTable 0 hf cf) (Some k) v = Inl DivisionByZero"
    if "v \<noteq> NULL" "alloc h2 = (True, h3)"
    using that loadFactorExceeded_zero_capacity
    by (simp add: c n insertAtIndex_def hashKey_zero insertElement.simps reHashTable.simps)
  ultimately show ?thesis
    using createHashTable_ok[OF assms] c by simp
qed

theorem zero_capacity_reaches_modulo_by_zero_witness:
  "alloc [] = (True, []) 
   \<and> createHashTable [] 0 (Some idHash) (Some subCmp) = (Some (newTable 0 idHash subCmp), [])
   \<and> capacity (newTable 0 idHash subCmp) = 0
   \<and> removeElement (newTable 0 idHash subCmp) (Some 3) = Inl DivisionByZero
   \<and> hasKey (newTable 0 idHash subCmp) (Some 3) = Inl DivisionByZero
   \<and> (7 :: ptr) \<noteq> NULL
   \<and> insertElement (Suc 0) [] (newTable 0 idHash subCmp) (Some 3) 7 = Inl DivisionByZero"
proof -
  have a: "alloc [] = (True, [])" by simp
  have v: "(7 :: ptr) \<noteq> NULL" by (simp add: NULL_def)
  from zero_capacity_reaches_modulo_by_zero[OF a a, of idHash subCmp 3 7 "[]" 0] a v
  show ?thesis by simp
qed

section \<open>Removal\<close>

lemma removeSearch_match:
  assumes "\<exists>e \<in> set (cur # rest). cmp (key e) k = 0"
  shows "removeSearch cmp k prev cur rest =
     (prev @ takeWhile (\<lambda>e. cmp (key e) k \<noteq> 0) (cur # rest),
      hd (dropWhile (\<lambda>e. cmp (key e) k \<noteq> 0) (cur # rest)),
      tl (dropWhile (\<lambda>e. cmp (key e) k \<noteq> 0) (cur # rest)))"
  using assms
proof (induction rest arbitrary: prev cur)
  case Nil
  then show ?case by simp
next
  case (Cons n rest)
  show ?case
  proof (cases "cmp (key cur) k = 0")
    case True
    then show ?thesis by simp
  next
    case False
    then have "\<exists>e \<in> set (n # rest). cmp (key e) k = 0" using Cons.prems by simp
    from Cons.IH[OF this, of "prev @ [cur]"] False show ?thesis by simp
  qed
qed

lemma removeSearch_no_match:
  assumes "\<forall>e \<in> set (cur # rest). cmp (key e) k \<noteq> 0"
  shows "removeSearch cmp k prev cur rest = (prev @ butlast (cur # rest), last (cur # rest), [])"
  using assms
proof (induction rest arbitrary: prev cur)
  case Nil
  then show ?case by simp
next
  case (Cons n rest)
  then have "\<forall>e \<in> set (n # rest). cmp (key e) k \<noteq> 0" by simp
  from Cons.IH[OF this, of "prev @ [cur]"] Cons.prems show ?case by simp
qed

lemma bucketOf_in_range: "validTable t \<Longrightarrow> bucketOf t k < length (elementsArray t)"
  by (simp add: validTable_def bucketOf_def unat_mono word_mod_less_divisor word_greater_zero_iff)

lemma removeElement_present:
  assumes "capacity t \<noteq> 0"
    and "\<exists>e \<in> set (elementsArray t ! bucketOf t k). \<not> differs t k e"
  shows "removeElement t (Some k) =
     Inr (value (hd (dropWhile (differs t k) (elementsArray t ! bucketOf t k))),
          t\<lparr>elementsArray := (elementsArray t)[bucketOf t k :=
               takeWhile (differs t k) (elementsArray t ! bucketOf t k)
               @ tl (dropWhile (differs t k) (elementsArray t ! bucketOf t k))],
            nbElements := nbElements t - 1\<rparr>)"
proof (cases "elementsArray t ! bucketOf t k")
  case Nil
  then show ?thesis using assms(2) by simp
next
  case (Cons e es)
  have d: "differs t k = (\<lambda>e. compareFunction t (key e) k \<noteq> 0)"
    by (rule ext) (simp add: differs_def)
  have m: "\<exists>x \<in> set (e # es). compareFunction t (key x) k = 0"
    using assms(2) Cons by (simp add: differs_def)
  have f: "compareFunction t (key (hd (dropWhile (\<lambda>e. compareFunction t (key e) k \<noteq> 0) (e # es)))) k = 0"
    using m hd_dropWhile[of "\<lambda>e. compareFunction t (key e) k \<noteq> 0" "e # es"]
    by (metis (mono_tags, lifting) dropWhile_eq_Nil_conv)
  show ?thesis
    using f unfolding removeElement_def hashKey_mod[OF assms(1)] d
    by (simp add: bucketOf_def[symmetric] Cons removeSearch_match[where cmp="compareFunction t" and k=k and cur=e and rest=es and prev="[]", OF m] Let_def del: removeSearch.simps dropWhile.simps takeWhile.simps)
qed

lemma removeElement_absent:
  assumes "capacity t \<noteq> 0"
    and "\<forall>e \<in> set (elementsArray t ! bucketOf t k). differs t k e"
  shows "removeElement t (Some k) = Inr (NULL, t)"
proof (cases "elementsArray t ! bucketOf t k")
  case Nil
  then show ?thesis using assms(1) by (simp add: removeElement_def hashKey_mod bucketOf_def)
next
  case (Cons e es)
  have m: "\<forall>x \<in> set (e # es). compareFunction t (key x) k \<noteq> 0"
    using assms(2) Cons by (simp add: differs_def)
  then have "compareFunction t (key (last (e # es))) k \<noteq> 0"
    using last_in_set[of "e # es"] by blast
  then show ?thesis
    unfolding removeElement_def hashKey_mod[OF assms(1)]
    by (simp add: bucketOf_def[symmetric] Cons removeSearch_no_match[where cmp="compareFunction t" and k=k and cur=e and rest=es and prev="[]", OF m] Let_def del: removeSearch.simps)
qed




section \<open>Insertion of a new key, and failing allocations\<close>

lemma insertSearch_none:
  assumes "\<forall>e \<in> set (butlast (cur # rest)). cmp (key e) k \<noteq> 0"
  shows "insertSearch cmp k prev cur rest = None"
  using assms
proof (induction rest arbitrary: prev cur)
  case Nil
  then show ?case by simp
next
  case (Cons n rest)
  then have "\<forall>e \<in> set (butlast (n # rest)). cmp (key e) k \<noteq> 0" by simp
  from Cons.IH[OF this, of "prev @ [cur]"] Cons.prems show ?case by simp
qed

lemma insertAtIndex_no_match:
  assumes "capacity t \<noteq> 0"
    and "\<forall>e \<in> set (butlast (elementsArray t ! bucketOf t k)). differs t k e"
  shows "insertAtIndex h t k v =
     (case alloc h of
        (False, h') \<Rightarrow> Inr (NULL, h', t)
      | (True, h') \<Rightarrow>
          Inr (INSERTED, h',
               t\<lparr>elementsArray := (elementsArray t)[bucketOf t k :=
                    elementsArray t ! bucketOf t k @ [entry k v]],
                 nbElements := nbElements t + 1\<rparr>))"
proof (cases "elementsArray t ! bucketOf t k")
  case Nil
  then show ?thesis
    unfolding insertAtIndex_def hashKey_mod[OF assms(1)]
    by (simp add: bucketOf_def[symmetric] Let_def entry_def split: prod.split bool.split)
next
  case (Cons e es)
  have m: "\<forall>x \<in> set (butlast (e # es)). compareFunction t (key x) k \<noteq> 0"
    using assms(2) Cons by (simp add: differs_def)
  show ?thesis
    unfolding insertAtIndex_def hashKey_mod[OF assms(1)]
    by (simp add: bucketOf_def[symmetric] Let_def entry_def Cons
          insertSearch_none[where cmp="compareFunction t" and k=k and cur=e and rest=es and prev="[]", OF m]
          split: prod.split bool.split del: insertSearch.simps)
qed

lemma insertElement_no_resize:
  "v \<noteq> NULL \<Longrightarrow> \<not> loadFactorExceeded (nbElements t) (capacity t) \<Longrightarrow>
     insertElement fuel h t (Some k) v = insertAtIndex h t k v"
  by (simp add: insertElement.simps)

lemma insertElement_resized:
  "v \<noteq> NULL \<Longrightarrow> loadFactorExceeded (nbElements t0) (capacity t0) \<Longrightarrow>
     reHashTable fuel h0 t0 = Inr (0, h, t) \<Longrightarrow>
     insertElement (Suc fuel) h0 t0 (Some k) v = insertAtIndex h t k v"
  by (simp add: insertElement.simps)

lemma reHashTable_no_memory:
  "alloc h = (False, h') \<Longrightarrow> reHashTable fuel h t = Inr (- 2, h', t)"
  by (simp add: reHashTable.simps)

text \<open>
  Claim C7, as amended. An insertion that fails because the doubled bucket array cannot be
  allocated returns \<^verbatim>\<open>NULL\<close> and leaves the table as it was; so does an insertion into a
  valid table that needs no resize, finds no equivalent key in front of the last element
  of the chain, and fails to allocate the new element.
\<close>

theorem failed_allocation_without_rehash_keeps_table:
  assumes "v \<noteq> NULL" and "alloc h = (False, h')"
  shows "(loadFactorExceeded (nbElements t) (capacity t) \<longrightarrow>
            insertElement (Suc fuel) h t (Some k) v = Inr (NULL, h', t))
    \<and> (\<not> loadFactorExceeded (nbElements t) (capacity t) \<and> validTable t
         \<and> (\<forall>e \<in> set (butlast (elementsArray t ! bucketOf t k)). differs t k e) \<longrightarrow>
            insertElement fuel h t (Some k) v = Inr (NULL, h', t))"
proof (intro conjI impI)
  assume "loadFactorExceeded (nbElements t) (capacity t)"
  then show "insertElement (Suc fuel) h t (Some k) v = Inr (NULL, h', t)"
    using assms by (simp add: insertElement.simps reHashTable_no_memory)
next
  assume a: "\<not> loadFactorExceeded (nbElements t) (capacity t) \<and> validTable t
         \<and> (\<forall>e \<in> set (butlast (elementsArray t ! bucketOf t k)). differs t k e)"
  then have "insertElement fuel h t (Some k) v = insertAtIndex h t k v"
    using assms(1) by (simp add: insertElement_no_resize)
  also have "\<dots> = Inr (NULL, h', t)"
    using a assms(2) by (simp add: insertAtIndex_no_match validTable_def)
  finally show "insertElement fuel h t (Some k) v = Inr (NULL, h', t)" .
qed

theorem failed_allocation_without_rehash_keeps_table_witness:
  "(9 :: ptr) \<noteq> NULL \<and> alloc [False] = (False, [])
   \<and> loadFactorExceeded (nbElements (numTable 4 [[entry 0 3], [entry 1 7], [], []] 2))
        (capacity (numTable 4 [[entry 0 3], [entry 1 7], [], []] 2))
   \<and> insertElement (Suc 0) [False] (numTable 4 [[entry 0 3], [entry 1 7], [], []] 2) (Some 2) 9
        = Inr (NULL, [], numTable 4 [[entry 0 3], [entry 1 7], [], []] 2)
   \<and> \<not> loadFactorExceeded (nbElements (numTable 4 [[entry 0 3], [], [], []] 1))
        (capacity (numTable 4 [[entry 0 3], [], [], []] 1))
   \<and> validTable (numTable 4 [[entry 0 3], [], [], []] 1)
   \<and> insertElement 0 [False] (numTable 4 [[entry 0 3], [], [], []] 1) (Some 4) 9
        = Inr (NULL, [], numTable 4 [[entry 0 3], [], [], []] 1)"
proof -
  have v: "(9 :: ptr) \<noteq> NULL" by (simp add: NULL_def)
  have a: "alloc [False] = (False, [])" by simp
  from failed_allocation_without_rehash_keeps_table[OF v a,
      of "numTable 4 [[entry 0 3], [entry 1 7], [], []] 2" 0 2]
    failed_allocation_without_rehash_keeps_table[OF v a,
      of "numTable 4 [[entry 0 3], [], [], []] 1" 0 4] v
  show ?thesis by (simp add: table_eval)
qed

text \<open>
  The claim as stated fails when the resize succeeds and a later allocation does not. With
  two elements in a table of capacity 4 the third insertion rehashes; if the array and
  both re-insertions obtain memory and the new element does not, \<open>insertElement\<close> returns
  \<^verbatim>\<open>NULL\<close> with the capacity at 8. If the second re-insertion fails, it returns \<^verbatim>\<open>NULL\<close>
  with capacity 8, count 1, and the element with key 1 no longer in any chain.
\<close>

theorem failed_allocation_after_rehash_counterexample:
  "insertElement 1 [True, True, True, False]
       (numTable 4 [[entry 0 3], [entry 1 7], [], []] 2) (Some 2) 9
     = Inr (NULL, [], numTable 8 [[entry 0 3], [entry 1 7], [], [], [], [], [], []] 2)
   \<and> capacity (numTable 8 [[entry 0 3], [entry 1 7], [], [], [], [], [], []] 2)
       \<noteq> capacity (numTable 4 [[entry 0 3], [entry 1 7], [], []] 2)
   \<and> insertElement 1 [True, True, False]
       (numTable 4 [[entry 0 3], [entry 1 7], [], []] 2) (Some 2) 9
     = Inr (NULL, [], numTable 8 [[entry 0 3], [], [], [], [], [], [], []] 1)
   \<and> nbElements (numTable 8 [[entry 0 3], [], [], [], [], [], [], []] 1)
       \<noteq> nbElements (numTable 4 [[entry 0 3], [entry 1 7], [], []] 2)"
  by (simp add: table_eval)

text \<open>
  Claim C9, as amended. With \<open>t\<close> the valid table as it stands when the chain is walked
  (after the resize step, if there was one), a non-null key \<open>k\<close> to which no element of the chain
  of its bucket is equivalent, a non-null value and a successful allocation: the new
  element \<open>(k, v)\<close> is linked at the end of that chain (it is the chain when the bucket
  was empty), \<open>nbElements\<close> is incremented, and the result is \<^verbatim>\<open>(void*)-1\<close>, which is not
  \<^verbatim>\<open>NULL\<close> and differs from every stored value except a stored \<^verbatim>\<open>(void*)-1\<close>.
\<close>

theorem new_key_is_appended_to_chain:
  assumes "v \<noteq> NULL" and "validTable t"
    and "\<forall>e \<in> set (elementsArray t ! bucketOf t k). differs t k e"
    and "alloc h = (True, h')"
  shows "insertAtIndex h t k v =
       Inr (INSERTED, h',
            t\<lparr>elementsArray := (elementsArray t)[bucketOf t k :=
                 elementsArray t ! bucketOf t k @ [entry k v]],
              nbElements := nbElements t + 1\<rparr>)
    \<and> bucketOf t k < length (elementsArray t)
    \<and> (\<not> loadFactorExceeded (nbElements t) (capacity t) \<longrightarrow>
          insertElement fuel h t (Some k) v = insertAtIndex h t k v)
    \<and> (\<forall>h0 t0. loadFactorExceeded (nbElements t0) (capacity t0)
           \<and> reHashTable fuel h0 t0 = Inr (0, h, t) \<longrightarrow>
          insertElement (Suc fuel) h0 t0 (Some k) v = insertAtIndex h t k v)
    \<and> INSERTED \<noteq> NULL
    \<and> (\<forall>e \<in> set (concat (elementsArray t)). value e \<noteq> - 1 \<longrightarrow> value e \<noteq> INSERTED)"
proof -
  have c: "capacity t \<noteq> 0" using assms(2) by (simp add: validTable_def)
  have b: "\<forall>e \<in> set (butlast (elementsArray t ! bucketOf t k)). differs t k e"
    using assms(3) by (meson in_set_butlastD)
  have "insertAtIndex h t k v =
       Inr (INSERTED, h',
            t\<lparr>elementsArray := (elementsArray t)[bucketOf t k :=
                 elementsArray t ! bucketOf t k @ [entry k v]],
              nbElements := nbElements t + 1\<rparr>)"
    using assms(4) by (simp add: insertAtIndex_no_match[OF c b])
  then show ?thesis
    using assms(1) bucketOf_in_range[OF assms(2)]
    by (simp add: insertElement_no_resize insertElement_resized INSERTED_def NULL_def)
qed

theorem new_key_is_appended_to_chain_witness:
  "(9 :: ptr) \<noteq> NULL \<and> alloc [] = (True, [])
   \<and> validTable (numTable 4 [[], [entry 1 7], [], []] 1)
   \<and> \<not> loadFactorExceeded 1 4
   \<and> insertElement 0 [] (numTable 4 [[], [entry 1 7], [], []] 1) (Some 5) 9
       = Inr (INSERTED, [], numTable 4 [[], [entry 1 7, entry 5 9], [], []] 2)
   \<and> validTable (numTable 8 [[entry 0 3], [entry 1 7], [], [], [], [], [], []] 2)
   \<and> loadFactorExceeded 2 4
   \<and> reHashTable 0 [] (numTable 4 [[entry 0 3], [entry 1 7], [], []] 2)
       = Inr (0, [], numTable 8 [[entry 0 3], [entry 1 7], [], [], [], [], [], []] 2)
   \<and> insertElement (Suc 0) [] (numTable 4 [[entry 0 3], [entry 1 7], [], []] 2) (Some 2) 9
       = Inr (INSERTED, [], numTable 8 [[entry 0 3], [entry 1 7], [entry 2 9], [], [], [], [], []] 3)
   \<and> value (entry 1 7) \<noteq> INSERTED"
proof -
  have v: "(9 :: ptr) \<noteq> NULL" by (simp add: NULL_def)
  have a: "alloc [] = (True, [])" by simp
  have c1: "validTable (numTable 4 [[], [entry 1 7], [], []] 1)" by (simp add: table_eval)
  have d1: "\<forall>e \<in> set (elementsArray (numTable 4 [[], [entry 1 7], [], []] 1)
       ! bucketOf (numTable 4 [[], [entry 1 7], [], []] 1) 5).
       differs (numTable 4 [[], [entry 1 7], [], []] 1) 5 e"
    by (simp add: table_eval)
  have c2: "validTable (numTable 8 [[entry 0 3], [entry 1 7], [], [], [], [], [], []] 2)"
    by (simp add: table_eval)
  have d2: "\<forall>e \<in> set (elementsArray (numTable 8 [[entry 0 3], [entry 1 7], [], [], [], [], [], []] 2)
       ! bucketOf (numTable 8 [[entry 0 3], [entry 1 7], [], [], [], [], [], []] 2) 2).
       differs (numTable 8 [[entry 0 3], [entry 1 7], [], [], [], [], [], []] 2) 2 e"
    by (simp add: table_eval)
  have r: "reHashTable 0 [] (numTable 4 [[entry 0 3], [entry 1 7], [], []] 2)
       = Inr (0, [], numTable 8 [[entry 0 3], [entry 1 7], [], [], [], [], [], []] 2)"
    by (simp add: table_eval)
  have l: "\<not> loadFactorExceeded 1 4" "loadFactorExceeded 2 4"
    by (simp_all add: table_eval)
  from new_key_is_appended_to_chain[OF v c1 d1 a, of 0]
    new_key_is_appended_to_chain[OF v c2 d2 a, of 0] r l c1 c2
  show ?thesis by (simp add: table_eval)
qed

text \<open>
  The claim as stated fails for the value \<^verbatim>\<open>(void*)-1\<close>, which \<open>insertElement\<close> accepts like
  any other non-null value: once it is stored, the result of inserting a new key equals a
  stored value, and the result of replacing it is the same \<^verbatim>\<open>(void*)-1\<close> that signals a new
  element.
\<close>

theorem inserted_result_equals_stored_value_counterexample:
  "insertElement 0 [] (numTable 8 [[], [], [], [], [], [], [], []] 0) (Some 1) (- 1)
     = Inr (INSERTED, [], numTable 8 [[], [entry 1 (- 1)], [], [], [], [], [], []] 1)
   \<and> insertElement 0 [] (numTable 8 [[], [entry 1 (- 1)], [], [], [], [], [], []] 1) (Some 9) 7
     = Inr (INSERTED, [], numTable 8 [[], [entry 1 (- 1), entry 9 7], [], [], [], [], [], []] 2)
   \<and> value (entry 1 (- 1)) = INSERTED
   \<and> insertElement 0 [] (numTable 8 [[], [entry 1 (- 1), entry 9 7], [], [], [], [], [], []] 2)
         (Some 1) 5
     = Inr (INSERTED, [], numTable 8 [[], [entry 1 5, entry 9 7], [], [], [], [], [], []] 3)"
  by (simp add: table_eval)


section \<open>The bucket the operations work on\<close>

lemma insertSearch_found:
  assumes "\<exists>e \<in> set (butlast (cur # rest)). cmp (key e) k = 0"
  shows "insertSearch cmp k prev cur rest =
     Some (prev @ takeWhile (\<lambda>e. cmp (key e) k \<noteq> 0) (cur # rest),
           hd (dropWhile (\<lambda>e. cmp (key e) k \<noteq> 0) (cur # rest)),
           tl (dropWhile (\<lambda>e. cmp (key e) k \<noteq> 0) (cur # rest)))"
  using assms
proof (induction rest arbitrary: prev cur)
  case Nil
  then show ?case by simp
next
  case (Cons n rest)
  show ?case
  proof (cases "cmp (key cur) k = 0")
    case True
    then show ?thesis by simp
  next
    case False
    then have "\<exists>e \<in> set (butlast (n # rest)). cmp (key e) k = 0" using Cons.prems by simp
    from Cons.IH[OF this, of "prev @ [cur]"] False show ?thesis by simp
  qed
qed

lemma insertAtIndex_match:
  assumes "capacity t \<noteq> 0"
    and "\<exists>e \<in> set (butlast (elementsArray t ! bucketOf t k)). \<not> differs t k e"
  shows "insertAtIndex h t k v =
     Inr (value (hd (dropWhile (differs t k) (elementsArray t ! bucketOf t k))), h,
          t\<lparr>elementsArray := (elementsArray t)[bucketOf t k :=
               takeWhile (differs t k) (elementsArray t ! bucketOf t k)
               @ (hd (dropWhile (differs t k) (elementsArray t ! bucketOf t k)))\<lparr>value := v\<rparr>
               # tl (dropWhile (differs t k) (elementsArray t ! bucketOf t k))],
            nbElements := nbElements t + 1\<rparr>)"
proof (cases "elementsArray t ! bucketOf t k")
  case Nil
  then show ?thesis using assms(2) by simp
next
  case (Cons e es)
  have d: "differs t k = (\<lambda>e. compareFunction t (key e) k \<noteq> 0)"
    by (rule ext) (simp add: differs_def)
  have m: "\<exists>x \<in> set (butlast (e # es)). compareFunction t (key x) k = 0"
    using assms(2) Cons by (simp add: differs_def)
  show ?thesis
    unfolding insertAtIndex_def hashKey_mod[OF assms(1)] d
    by (simp add: bucketOf_def[symmetric] Cons Let_def
          insertSearch_found[where cmp="compareFunction t" and k=k and cur=e and rest=es and prev="[]", OF m]
          del: insertSearch.simps dropWhile.simps takeWhile.simps)
qed

lemma insertAtIndex_at_bucket:
  assumes "capacity t \<noteq> 0"
  shows "insertAtIndex h t k v =
     (if \<exists>e \<in> set (butlast (elementsArray t ! bucketOf t k)). \<not> differs t k e
      then Inr (value (hd (dropWhile (differs t k) (elementsArray t ! bucketOf t k))), h,
          t\<lparr>elementsArray := (elementsArray t)[bucketOf t k :=
               takeWhile (differs t k) (elementsArray t ! bucketOf t k)
               @ (hd (dropWhile (differs t k) (elementsArray t ! bucketOf t k)))\<lparr>value := v\<rparr>
               # tl (dropWhile (differs t k) (elementsArray t ! bucketOf t k))],
            nbElements := nbElements t + 1\<rparr>)
      else case alloc h of
          (False, h') \<Rightarrow> Inr (NULL, h', t)
        | (True, h') \<Rightarrow>
            Inr (INSERTED, h',
               t\<lparr>elementsArray := (elementsArray t)[bucketOf t k :=
                    elementsArray t ! bucketOf t k @ [entry k v]],
                 nbElements := nbElements t + 1\<rparr>))"
proof (cases "\<exists>e \<in> set (butlast (elementsArray t ! bucketOf t k)). \<not> differs t k e")
  case True
  then show ?thesis using insertAtIndex_match[OF assms True] by simp
next
  case False
  then have "\<forall>e \<in> set (butlast (elementsArray t ! bucketOf t k)). differs t k e" by simp
  from insertAtIndex_no_match[OF assms this] False show ?thesis by simp
qed

lemma removeElement_at_bucket:
  assumes "capacity t \<noteq> 0"
  shows "removeElement t (Some k) =
     (if \<exists>e \<in> set (elementsArray t ! bucketOf t k). \<not> differs t k e
      then Inr (value (hd (dropWhile (differs t k) (elementsArray t ! bucketOf t k))),
               t\<lparr>elementsArray := (elementsArray t)[bucketOf t k :=
                    takeWhile (differs t k) (elementsArray t ! bucketOf t k)
                    @ tl (dropWhile (differs t k) (elementsArray t ! bucketOf t k))],
                 nbElements := nbElements t - 1\<rparr>)
      else Inr (NULL, t))"
  using removeElement_present[OF assms] removeElement_absent[OF assms] by auto


lemma insertAtIndex_capacity:
  "insertAtIndex h t k v = Inr (r, h', t') \<Longrightarrow> capacity t' = capacity t"
  by (auto simp add: insertAtIndex_def Let_def split: sum.splits option.splits prod.splits bool.splits)

lemma capacity_only_doubles:
  shows "insertElement fuel h t kp v = Inr (r, h', t') \<Longrightarrow> \<exists>m. capacity t' = capacity t * 2 ^ m"
    and "reHashTable fuel h t = Inr (rc, h', t') \<Longrightarrow>
           (rc = - 2 \<and> t' = t) \<or> (\<exists>m. capacity t' = capacity t * 2 * 2 ^ m)"
    and "reinsert fuel h t es = Inr (rc, h', t') \<Longrightarrow> \<exists>m. capacity t' = capacity t * 2 ^ m"
proof (induction fuel h t kp v and fuel h t and fuel h t es
    arbitrary: r h' t' and rc h' t' and rc h' t'
    rule: insertElement_reHashTable_reinsert.induct)
  case (1 fuel h t v)
  then have "t' = t" by (simp add: insertElement.simps)
  then show ?case by (intro exI[of _ 0]) simp
next
  case (2 fuel h t k v)
  show ?case
  proof (cases "v = NULL")
    case True
    then have "t' = t" using 2(2) by (simp add: insertElement.simps)
    then show ?thesis by (intro exI[of _ 0]) simp
  next
    case nn: False
    show ?thesis
    proof (cases "loadFactorExceeded (nbElements t) (capacity t)")
      case False
      then have "insertAtIndex h t k v = Inr (r, h', t')" using 2(2) nn by (simp add: insertElement.simps)
      then have "capacity t' = capacity t" by (rule insertAtIndex_capacity)
      then show ?thesis by (intro exI[of _ 0]) simp
    next
      case True
      then obtain fuel' where f: "fuel = Suc fuel'" using 2(2) nn
        by (cases fuel) (simp_all add: insertElement.simps)
      obtain rc h1 t1 where rh: "reHashTable fuel' h t = Inr (rc, h1, t1)"
        using 2(2) nn True f by (cases "reHashTable fuel' h t") (auto simp add: insertElement.simps)
      from 2(1)[OF nn True f rh]
      have q: "(rc = - 2 \<and> t1 = t) \<or> (\<exists>m. capacity t1 = capacity t * 2 * 2 ^ m)" .
      have t1: "\<exists>m. capacity t1 = capacity t * 2 ^ m"
      proof -
        from q show ?thesis
        proof
          assume "rc = - 2 \<and> t1 = t"
          then show ?thesis by (intro exI[of _ 0]) simp
        next
          assume "\<exists>m. capacity t1 = capacity t * 2 * 2 ^ m"
          then obtain m where "capacity t1 = capacity t * 2 * 2 ^ m" ..
          then have "capacity t1 = capacity t * 2 ^ Suc m" by (simp add: mult.assoc)
          then show ?thesis ..
        qed
      qed
      show ?thesis
      proof (cases "rc = 0")
        case False
        then have "t' = t1" using 2(2) nn True f rh by (simp add: insertElement.simps)
        then show ?thesis using t1 by simp
      next
        case rc0: True
        then have "insertAtIndex h1 t1 k v = Inr (r, h', t')"
          using 2(2) nn True f rh by (simp add: insertElement.simps)
        then have "capacity t' = capacity t1" by (rule insertAtIndex_capacity)
        then show ?thesis using t1 by simp
      qed
    qed
  qed
next
  case (3 fuel h t)
  obtain ok h1 where a: "alloc h = (ok, h1)" by (cases "alloc h")
  show ?case
  proof (cases ok)
    case False
    then show ?thesis using 3(2) a by (simp add: reHashTable.simps)
  next
    case True
    let ?t0 = "t\<lparr>elementsArray := replicate (unat (capacity t * 2)) [],
               capacity := capacity t * 2, nbElements := 0\<rparr>"
    have "reinsert fuel h1 ?t0 (concat (elementsArray t)) = Inr (rc, h', t')"
      using 3(2) a True by (simp add: reHashTable.simps)
    moreover have "ok = True" using True by simp
    ultimately have "\<exists>m. capacity t' = capacity ?t0 * 2 ^ m"
      using 3(1)[OF a[symmetric]] by blast
    then show ?thesis by simp
  qed
next
  case (4 fuel h t)
  then have "t' = t" by simp
  then show ?case by (intro exI[of _ 0]) simp
next
  case (5 fuel h t e es)
  obtain r1 h1 t1 where i: "insertElement fuel h t (Some (key e)) (value e) = Inr (r1, h1, t1)"
    using 5(3) by (cases "insertElement fuel h t (Some (key e)) (value e)") auto
  from 5(1)[OF i] obtain m where m: "capacity t1 = capacity t * 2 ^ m" ..
  show ?case
  proof (cases "r1 = NULL")
    case True
    then have "t' = t1" using 5(3) i by simp
    then show ?thesis using m by blast
  next
    case False
    then have "reinsert fuel h1 t1 es = Inr (rc, h', t')" using 5(3) i by simp
    from 5(2)[OF i _ _ False this] obtain n where "capacity t' = capacity t1 * 2 ^ n" by blast
    then have "capacity t' = capacity t * 2 ^ (m + n)" using m by (simp add: power_add mult.assoc)
    then show ?thesis ..
  qed
qed

text \<open>
  Claim C5. In a table of non-zero capacity the bucket index computed by \<open>hashKey\<close> is
  \<open>hash(key) mod capacity\<close>, and it is \<open>hash(key)\<close> itself when that is below the
  capacity; it is a slot of the array when the array has \<open>capacity\<close> slots. With \<open>chain\<close> the chain at that index: \<open>hasKey\<close> answers whether \<open>chain\<close> holds
  an equivalent key; \<open>removeElement\<close> unlinks the first equivalent element of \<open>chain\<close> or
  returns \<^verbatim>\<open>NULL\<close>; \<open>insertElement\<close> replaces the value of the first equivalent element in
  front of the last element of \<open>chain\<close>, or else links the new element at the end of
  \<open>chain\<close>. An insertion that resizes first does so in the rehashed table, whose capacity
  is the old one doubled (and doubled again for each rehash nested in the re-insertion).
  With \<open>h(k) = k\<close>, key 5 lands in bucket 1 of a table of capacity 4.
\<close>

theorem bucket_index_is_hash_mod_capacity:
  assumes "capacity t \<noteq> 0"
  shows "let i = unat (hashFunction t k mod capacity t); chain = elementsArray t ! i;
           inserted =
             (if \<exists>e \<in> set (butlast chain). \<not> differs t k e
              then Inr (value (hd (dropWhile (differs t k) chain)), h,
                   t\<lparr>elementsArray := (elementsArray t)[i :=
                        takeWhile (differs t k) chain
                        @ (hd (dropWhile (differs t k) chain))\<lparr>value := v\<rparr>
                        # tl (dropWhile (differs t k) chain)],
                     nbElements := nbElements t + 1\<rparr>)
              else case alloc h of
                  (False, h') \<Rightarrow> Inr (NULL, h', t)
                | (True, h') \<Rightarrow>
                    Inr (INSERTED, h',
                       t\<lparr>elementsArray := (elementsArray t)[i := chain @ [entry k v]],
                         nbElements := nbElements t + 1\<rparr>))
     in (validTable t \<longrightarrow> i < length (elementsArray t))
      \<and> hashKey t (hashFunction t k) = Inr (hashFunction t k mod capacity t)
      \<and> (hashFunction t k < capacity t \<longrightarrow> hashKey t (hashFunction t k) = Inr (hashFunction t k))
      \<and> hasKey t (Some k) = Inr (\<exists>e \<in> set chain. \<not> differs t k e)
      \<and> removeElement t (Some k) =
          (if \<exists>e \<in> set chain. \<not> differs t k e
           then Inr (value (hd (dropWhile (differs t k) chain)),
                     t\<lparr>elementsArray := (elementsArray t)[i :=
                          takeWhile (differs t k) chain @ tl (dropWhile (differs t k) chain)],
                       nbElements := nbElements t - 1\<rparr>)
           else Inr (NULL, t))
      \<and> (v \<noteq> NULL \<and> \<not> loadFactorExceeded (nbElements t) (capacity t) \<longrightarrow>
            insertElement fuel h t (Some k) v = inserted)
      \<and> (\<forall>h0 t0. v \<noteq> NULL \<and> loadFactorExceeded (nbElements t0) (capacity t0)
              \<and> reHashTable fuel h0 t0 = Inr (0, h, t) \<longrightarrow>
            insertElement (Suc fuel) h0 t0 (Some k) v = inserted
            \<and> (\<exists>m. capacity t = capacity t0 * 2 * 2 ^ m))
      \<and> hashKey (numTable 4 [[], [], [], []] 0) (idHash 5) = Inr 1"
proof -
  have c: "capacity t \<noteq> 0" using assms .
  have rng: "validTable t \<longrightarrow> bucketOf t k < length (elementsArray t)"
    using bucketOf_in_range[of t k] by simp
  have five: "hashKey (numTable 4 [[], [], [], []] 0) (idHash 5) = Inr 1"
    by (simp add: hashKey_def numTable_def idHash_def word_mod_def)
  have lt: "hashFunction t k < capacity t \<longrightarrow> hashKey t (hashFunction t k) = Inr (hashFunction t k)"
    by (simp add: hashKey_def)
  have hk: "hasKey t (Some k)
      = Inr (\<exists>e \<in> set (elementsArray t ! bucketOf t k). \<not> differs t k e)"
    using hasKey_iff[OF c, of k] by (simp add: differs_def)
  have ins: "v \<noteq> NULL \<and> \<not> loadFactorExceeded (nbElements t) (capacity t) \<longrightarrow>
      insertElement fuel h t (Some k) v = insertAtIndex h t k v"
    by (simp add: insertElement_no_resize)
  have res: "\<forall>h0 t0. v \<noteq> NULL \<and> loadFactorExceeded (nbElements t0) (capacity t0)
              \<and> reHashTable fuel h0 t0 = Inr (0, h, t) \<longrightarrow>
            insertElement (Suc fuel) h0 t0 (Some k) v = insertAtIndex h t k v
            \<and> (\<exists>m. capacity t = capacity t0 * 2 * 2 ^ m)"
    using capacity_only_doubles(2)[of fuel _ _ 0 h t]
    by (auto simp add: insertElement_resized)
  show ?thesis
    unfolding Let_def bucketOf_def[symmetric]
    using rng hashKey_mod[OF c, of "hashFunction t k"] lt hk
      removeElement_at_bucket[OF c, of k] ins res five
    unfolding insertAtIndex_at_bucket[OF c]
    by (intro conjI) assumption+
qed

theorem bucket_index_is_hash_mod_capacity_witness:
  "validTable (numTable 4 [[], [entry 5 7], [], []] 1)
   \<and> hashKey (numTable 4 [[], [entry 5 7], [], []] 1) (idHash 5) = Inr 1
   \<and> idHash 1 < (4 :: size_t)
   \<and> hashKey (numTable 4 [[], [entry 5 7], [], []] 1) (idHash 1) = Inr 1
   \<and> hasKey (numTable 4 [[], [entry 5 7], [], []] 1) (Some 5) = Inr True
   \<and> removeElement (numTable 4 [[], [entry 5 7], [], []] 1) (Some 5)
        = Inr (7, numTable 4 [[], [], [], []] 0)
   \<and> (9 :: ptr) \<noteq> NULL \<and> \<not> loadFactorExceeded 1 4
   \<and> insertElement 0 [] (numTable 4 [[], [entry 5 7], [], []] 1) (Some 1) 9
        = Inr (INSERTED, [], numTable 4 [[], [entry 5 7, entry 1 9], [], []] 2)
   \<and> validTable (numTable 8 [[], [entry 1 10, entry 9 20], [], [], [], [], [], []] 2)
   \<and> \<not> loadFactorExceeded 2 8
   \<and> insertElement 0 [] (numTable 8 [[], [entry 1 10, entry 9 20], [], [], [], [], [], []] 2)
          (Some 1) 30
        = Inr (10, [], numTable 8 [[], [entry 1 30, entry 9 20], [], [], [], [], [], []] 3)
   \<and> validTable (numTable 8 [[entry 0 3], [entry 1 7], [], [], [], [], [], []] 2)
   \<and> loadFactorExceeded 2 4
   \<and> reHashTable 0 [] (numTable 4 [[entry 0 3], [entry 1 7], [], []] 2)
        = Inr (0, [], numTable 8 [[entry 0 3], [entry 1 7], [], [], [], [], [], []] 2)
   \<and> unat (idHash 6 mod (8 :: size_t)) = 6
   \<and> insertElement (Suc 0) [] (numTable 4 [[entry 0 3], [entry 1 7], [], []] 2) (Some 6) 9
        = Inr (INSERTED, [],
               numTable 8 [[entry 0 3], [entry 1 7], [], [], [], [], [entry 6 9], []] 3)"
proof -
  have v1: "capacity (numTable 4 [[], [entry 5 7], [], []] 1) \<noteq> 0" by (simp add: table_eval)
  have v2: "capacity (numTable 8 [[], [entry 1 10, entry 9 20], [], [], [], [], [], []] 2) \<noteq> 0"
    by (simp add: table_eval)
  have v3: "capacity (numTable 8 [[entry 0 3], [entry 1 7], [], [], [], [], [], []] 2) \<noteq> 0"
    by (simp add: table_eval)
  have r: "reHashTable 0 [] (numTable 4 [[entry 0 3], [entry 1 7], [], []] 2)
        = Inr (0, [], numTable 8 [[entry 0 3], [entry 1 7], [], [], [], [], [], []] 2)"
    by (simp add: table_eval)
  have l: "\<not> loadFactorExceeded 1 4" "\<not> loadFactorExceeded 2 8" "loadFactorExceeded 2 4"
    by (simp_all add: table_eval)
  from bucket_index_is_hash_mod_capacity[OF v1, where k=5 and h="[]" and v=9 and fuel=0]
    bucket_index_is_hash_mod_capacity[OF v1, where k=1 and h="[]" and v=9 and fuel=0]
    bucket_index_is_hash_mod_capacity[OF v2, where k=1 and h="[]" and v=30 and fuel=0]
    bucket_index_is_hash_mod_capacity[OF v3, where k=6 and h="[]" and v=9 and fuel=0]
    r l
  show ?thesis by (simp add: table_eval)
qed


section \<open>Runs of insertions with distinct keys\<close>

lemma mset_concat_append_at:
  "i < length xs \<Longrightarrow> mset (concat (xs[i := xs ! i @ [x]])) = mset (concat xs) + {#x#}"
proof (induction xs arbitrary: i)
  case Nil
  then show ?case by simp
next
  case (Cons a xs)
  show ?case
  proof (cases i)
    case 0
    then show ?thesis by simp
  next
    case (Suc j)
    then show ?thesis using Cons by simp
  qed
qed

lemma bucketOf_update [simp]:
  "bucketOf (t\<lparr>elementsArray := a, nbElements := n\<rparr>) k = bucketOf t k"
  by (simp add: bucketOf_def)

lemma holds_append:
  assumes "holds t es"
  shows "holds (t\<lparr>elementsArray := (elementsArray t)[bucketOf t k :=
                    elementsArray t ! bucketOf t k @ [entry k v]],
                 nbElements := nbElements t + 1\<rparr>) (es @ [entry k v])"
proof -
  have v: "validTable t" and p: "placed t"
    and m: "mset (concat (elementsArray t)) = mset es"
    and n: "nbElements t = of_nat (length es)"
    using assms by (simp_all add: holds_def)
  have b: "bucketOf t k < length (elementsArray t)" using v by (rule bucketOf_in_range)
  let ?t = "t\<lparr>elementsArray := (elementsArray t)[bucketOf t k :=
                    elementsArray t ! bucketOf t k @ [entry k v]],
                 nbElements := nbElements t + 1\<rparr>"
  have "validTable ?t" using v by (simp add: validTable_def)
  moreover have "placed ?t"
    unfolding placed_def
  proof (intro allI impI ballI)
    fix i e
    assume i: "i < length (elementsArray ?t)" and e: "e \<in> set (elementsArray ?t ! i)"
    show "bucketOf ?t (key e) = i"
    proof (cases "i = bucketOf t k")
      case True
      then have "e \<in> set (elementsArray t ! i) \<or> e = entry k v" using e b by auto
      then show ?thesis
      proof
        assume "e \<in> set (elementsArray t ! i)"
        then show ?thesis using p i by (simp add: placed_def)
      next
        assume "e = entry k v"
        then show ?thesis using True by (simp add: entry_def)
      qed
    next
      case False
      then have "e \<in> set (elementsArray t ! i)" using e by simp
      then show ?thesis using p i by (simp add: placed_def)
    qed
  qed
  moreover have "mset (concat (elementsArray ?t)) = mset (es @ [entry k v])"
    using m b by (simp add: mset_concat_append_at)
  moreover have "nbElements ?t = of_nat (length (es @ [entry k v]))"
    using n by simp
  ultimately show ?thesis by (simp add: holds_def)
qed

lemma holds_chain_subset:
  assumes "holds t es" and "i < length (elementsArray t)"
  shows "set (elementsArray t ! i) \<subseteq> set es"
proof -
  have "mset (concat (elementsArray t)) = mset es" using assms(1) by (simp add: holds_def)
  then have "set (concat (elementsArray t)) = set es" by (rule mset_eq_setD)
  moreover have "set (elementsArray t ! i) \<subseteq> set (concat (elementsArray t))"
  proof -
    have "elementsArray t ! i \<in> set (elementsArray t)" using assms(2) by (rule nth_mem)
    then show ?thesis by auto
  qed
  ultimately show ?thesis by simp
qed

lemma insertElement_fresh:
  assumes h: "holds t es" and v: "v \<noteq> NULL"
    and l: "\<not> loadFactorExceeded (nbElements t) (capacity t)"
    and d: "\<forall>x \<in> set es. compareFunction t (key x) k \<noteq> 0"
  shows "insertElement fuel [] t (Some k) v =
     Inr (INSERTED, [],
          t\<lparr>elementsArray := (elementsArray t)[bucketOf t k :=
               elementsArray t ! bucketOf t k @ [entry k v]],
            nbElements := nbElements t + 1\<rparr>)"
proof -
  have vt: "validTable t" using h by (simp add: holds_def)
  then have c: "capacity t \<noteq> 0" by (simp add: validTable_def)
  have b: "bucketOf t k < length (elementsArray t)" using vt by (rule bucketOf_in_range)
  have "\<forall>e \<in> set (elementsArray t ! bucketOf t k). differs t k e"
    using holds_chain_subset[OF h b] d by (auto simp add: differs_def)
  then have "\<forall>e \<in> set (butlast (elementsArray t ! bucketOf t k)). differs t k e"
    by (meson in_set_butlastD)
  then show ?thesis
    using v l by (simp add: insertElement_no_resize insertAtIndex_no_match[OF c])
qed

lemma reinsert_all:
  assumes "holds t done"
    and "\<forall>x \<in> set es. value x \<noteq> NULL"
    and "distinct (done @ es)"
    and "\<forall>x \<in> set (done @ es). \<forall>y \<in> set (done @ es). x \<noteq> y \<longrightarrow> compareFunction t (key x) (key y) \<noteq> 0"
    and "\<forall>j < length (done @ es). \<not> loadFactorExceeded (of_nat j) (capacity t)"
  shows "\<exists>t'. reinsert fuel [] t es = Inr (0, [], t') \<and> holds t' (done @ es)
     \<and> capacity t' = capacity t \<and> hashFunction t' = hashFunction t
     \<and> compareFunction t' = compareFunction t"
  using assms
proof (induction es arbitrary: t "done")
  case Nil
  then show ?case by simp
next
  case (Cons e es)
  let ?t = "t\<lparr>elementsArray := (elementsArray t)[bucketOf t (key e) :=
               elementsArray t ! bucketOf t (key e) @ [entry (key e) (value e)]],
            nbElements := nbElements t + 1\<rparr>"
  have n: "nbElements t = of_nat (length done)" using Cons.prems(1) by (simp add: holds_def)
  have l: "\<not> loadFactorExceeded (nbElements t) (capacity t)"
    using Cons.prems(5) n by simp
  have d: "\<forall>x \<in> set done. compareFunction t (key x) (key e) \<noteq> 0"
    using Cons.prems(3,4) by auto
  have v: "value e \<noteq> NULL" using Cons.prems(2) by simp
  have ee: "entry (key e) (value e) = e" by (simp add: entry_def)
  have step: "insertElement fuel [] t (Some (key e)) (value e) = Inr (INSERTED, [], ?t)"
    using insertElement_fresh[OF Cons.prems(1) v l d] .
  have h': "holds ?t (done @ [e])" using holds_append[OF Cons.prems(1), of "key e" "value e"] ee by simp
  have "\<exists>t'. reinsert fuel [] ?t es = Inr (0, [], t') \<and> holds t' ((done @ [e]) @ es)
     \<and> capacity t' = capacity ?t \<and> hashFunction t' = hashFunction ?t
     \<and> compareFunction t' = compareFunction ?t"
    using Cons.prems by (intro Cons.IH[OF h']) simp_all
  then show ?case using step by (simp add: INSERTED_def NULL_def)
qed



lemma insertAtIndex_fresh:
  assumes h: "holds t es"
    and d: "\<forall>x \<in> set es. compareFunction t (key x) k \<noteq> 0"
  shows "insertAtIndex [] t k v =
     Inr (INSERTED, [],
          t\<lparr>elementsArray := (elementsArray t)[bucketOf t k :=
               elementsArray t ! bucketOf t k @ [entry k v]],
            nbElements := nbElements t + 1\<rparr>)"
proof -
  have vt: "validTable t" using h by (simp add: holds_def)
  then have c: "capacity t \<noteq> 0" by (simp add: validTable_def)
  have b: "bucketOf t k < length (elementsArray t)" using vt by (rule bucketOf_in_range)
  have "\<forall>e \<in> set (elementsArray t ! bucketOf t k). differs t k e"
    using holds_chain_subset[OF h b] d by (auto simp add: differs_def)
  then have "\<forall>e \<in> set (butlast (elementsArray t ! bucketOf t k)). differs t k e"
    by (meson in_set_butlastD)
  then show ?thesis
    by (simp add: insertAtIndex_no_match[OF c])
qed

lemma unat_double:
  fixes c :: size_t
  assumes "2 * unat c < 2 ^ 64"
  shows "unat (c * 2) = 2 * unat c"
proof -
  have "unat c * unat (2 :: size_t) < 2 ^ LENGTH(64)" using assms by simp
  then have "unat (c * 2) = unat c * unat (2 :: size_t)" by (simp only: unat_mult_lem)
  then show ?thesis by simp
qed

lemma unat_of_nat_succ_le: "unat (of_nat j + 1 :: size_t) \<le> j + 1"
proof -
  have "of_nat j + 1 = (of_nat (j + 1) :: size_t)" by simp
  then have "unat (of_nat j + 1 :: size_t) = (j + 1) mod 2 ^ LENGTH(64)"
    by (simp only: unat_of_nat)
  then show ?thesis by simp
qed

lemma unat_of_nat_succ: 
  assumes "j + 1 < 2 ^ 64" shows "unat (of_nat j + 1 :: size_t) = j + 1"
proof -
  have "of_nat j + 1 = (of_nat (j + 1) :: size_t)" by simp
  then have "unat (of_nat j + 1 :: size_t) = (j + 1) mod 2 ^ LENGTH(64)"
    by (simp only: unat_of_nat)
  then show ?thesis using assms by simp
qed

lemma reHashTable_doubles:
  assumes h: "holds t es"
    and vals: "\<forall>x \<in> set es. value x \<noteq> NULL"
    and dist: "distinct es"
    and diff: "\<forall>x \<in> set es. \<forall>y \<in> set es. x \<noteq> y \<longrightarrow> compareFunction t (key x) (key y) \<noteq> 0"
    and le: "length es \<le> unat (capacity t)"
    and nowrap: "2 * unat (capacity t) < 2 ^ 64"
  shows "\<exists>t'. reHashTable fuel [] t = Inr (0, [], t') \<and> holds t' es
     \<and> capacity t' = capacity t * 2 \<and> unat (capacity t') = 2 * unat (capacity t)
     \<and> hashFunction t' = hashFunction t \<and> compareFunction t' = compareFunction t"
proof -
  let ?old = "concat (elementsArray t)"
  let ?t0 = "t\<lparr>elementsArray := replicate (unat (capacity t * 2)) [],
               capacity := capacity t * 2, nbElements := 0\<rparr>"
  have vt: "validTable t" and m: "mset ?old = mset es"
    using h by (simp_all add: holds_def)
  have c: "capacity t \<noteq> 0" using vt by (simp add: validTable_def)
  have u: "unat (capacity t * 2) = 2 * unat (capacity t)" using nowrap by (rule unat_double)
  have c0: "0 < unat (capacity t)" using c by (simp add: unat_gt_0)
  have c2: "capacity t * 2 \<noteq> 0" using u c0 by (metis mult_is_0 unat_0 zero_neq_numeral less_numeral_extra(3))
  have s: "set ?old = set es" using m by (rule mset_eq_setD)
  have len: "length ?old = length es" using m by (rule mset_eq_length)
  have h0: "holds ?t0 []"
    using c2 by (simp add: holds_def validTable_def placed_def)
  have 1: "\<forall>x \<in> set ?old. value x \<noteq> NULL" using vals s by simp
  have 2: "distinct ([] @ ?old)" using dist mset_eq_imp_distinct_iff[OF m] by simp
  have 3: "\<forall>x \<in> set ([] @ ?old). \<forall>y \<in> set ([] @ ?old). x \<noteq> y \<longrightarrow> compareFunction ?t0 (key x) (key y) \<noteq> 0"
    using diff s by simp
  have 4: "\<forall>j < length ([] @ ?old). \<not> loadFactorExceeded (of_nat j) (capacity ?t0)"
  proof (intro allI impI)
    fix j assume "j < length ([] @ ?old)"
    then have "j + 1 \<le> unat (capacity t)" using len le by simp
    then have "2 * unat (of_nat j + 1 :: size_t) \<le> unat (capacity t * 2)"
      using unat_of_nat_succ_le[of j] u by linarith
    then show "\<not> loadFactorExceeded (of_nat j) (capacity ?t0)"
      using loadFactorExceeded_half by simp
  qed
  from reinsert_all[OF h0 1 2 3 4, of fuel]
  obtain t' where r: "reinsert fuel [] ?t0 ?old = Inr (0, [], t')" and h': "holds t' ([] @ ?old)"
    and e: "capacity t' = capacity ?t0" "hashFunction t' = hashFunction ?t0"
      "compareFunction t' = compareFunction ?t0" by blast
  have "holds t' es" using h' m len by (simp add: holds_def)
  moreover have "reHashTable fuel [] t = Inr (0, [], t')" using r by (simp add: reHashTable.simps)
  ultimately show ?thesis using e u by simp
qed

lemma insert_step:
  assumes h: "holds t es" and le: "length es \<le> unat (capacity t)"
    and small: "length es < 2 ^ 62"
    and vals: "\<forall>x \<in> set es. value x \<noteq> NULL" and v: "v \<noteq> NULL"
    and dist: "distinct es"
    and diff: "\<forall>x \<in> set es. \<forall>y \<in> set es. x \<noteq> y \<longrightarrow> compareFunction t (key x) (key y) \<noteq> 0"
    and new: "\<forall>x \<in> set es. compareFunction t (key x) k \<noteq> 0"
  shows "\<exists>t'. insertElement (Suc fuel) [] t (Some k) v = Inr (INSERTED, [], t')
      \<and> holds t' (es @ [entry k v]) \<and> length (es @ [entry k v]) \<le> unat (capacity t')
      \<and> hashFunction t' = hashFunction t \<and> compareFunction t' = compareFunction t
      \<and> (if loadFactorExceeded (nbElements t) (capacity t)
         then capacity t' = capacity t * 2 \<and> unat (capacity t') = 2 * unat (capacity t)
         else capacity t' = capacity t)"
proof -
  have vt: "validTable t" and n: "nbElements t = of_nat (length es)"
    using h by (simp_all add: holds_def)
  have c: "capacity t \<noteq> 0" using vt by (simp add: validTable_def)
  have c0: "0 < unat (capacity t)" using c by (simp add: unat_gt_0)
  have "length es + 1 < 2 ^ 64" using small by simp
  then have n1: "unat (nbElements t + 1) = length es + 1" unfolding n by (rule unat_of_nat_succ)
  show ?thesis
  proof (cases "loadFactorExceeded (nbElements t) (capacity t)")
    case False
    let ?t = "t\<lparr>elementsArray := (elementsArray t)[bucketOf t k :=
               elementsArray t ! bucketOf t k @ [entry k v]],
            nbElements := nbElements t + 1\<rparr>"
    have i: "insertElement (Suc fuel) [] t (Some k) v = Inr (INSERTED, [], ?t)"
      using insertElement_fresh[OF h v False new] .
    have "\<not> unat (capacity t) \<le> unat (nbElements t + 1)"
      using False loadFactorExceeded_full[OF _ c] by blast
    then have "length (es @ [entry k v]) \<le> unat (capacity ?t)" using n1 by simp
    then show ?thesis using i holds_append[OF h, of k v] False by simp
  next
    case True
    have "\<not> 2 * unat (nbElements t + 1) \<le> unat (capacity t)"
      using True loadFactorExceeded_half by blast
    then have "unat (capacity t) < 2 * (length es + 1)" using n1 by simp
    then have nowrap: "2 * unat (capacity t) < 2 ^ 64" using small by simp
    from reHashTable_doubles[OF h vals dist diff le nowrap, of fuel]
    obtain t1 where r: "reHashTable fuel [] t = Inr (0, [], t1)" and h1: "holds t1 es"
      and e: "capacity t1 = capacity t * 2" "unat (capacity t1) = 2 * unat (capacity t)"
        "hashFunction t1 = hashFunction t" "compareFunction t1 = compareFunction t" by blast
    let ?t = "t1\<lparr>elementsArray := (elementsArray t1)[bucketOf t1 k :=
               elementsArray t1 ! bucketOf t1 k @ [entry k v]],
            nbElements := nbElements t1 + 1\<rparr>"
    have new1: "\<forall>x \<in> set es. compareFunction t1 (key x) k \<noteq> 0" using new e by simp
    have "insertElement (Suc fuel) [] t (Some k) v = insertAtIndex [] t1 k v"
      using insertElement_resized[OF v True r] .
    then have i: "insertElement (Suc fuel) [] t (Some k) v = Inr (INSERTED, [], ?t)"
      using insertAtIndex_fresh[OF h1 new1] by simp
    have "length (es @ [entry k v]) \<le> unat (capacity ?t)" using le c0 e by simp
    then show ?thesis using i holds_append[OF h1, of k v] True e by simp
  qed
qed

lemma keysDiffer_iff:
  assumes "\<forall>k \<in> set ks. cmp k k = 0"
  shows "keysDiffer cmp ks \<longleftrightarrow>
     distinct ks \<and> (\<forall>a \<in> set ks. \<forall>b \<in> set ks. a \<noteq> b \<longrightarrow> cmp a b \<noteq> 0)"
  using assms
proof (induction ks)
  case Nil
  then show ?case by simp
next
  case (Cons k ks)
  then have r: "cmp k k = 0" and ih: "keysDiffer cmp ks \<longleftrightarrow>
     distinct ks \<and> (\<forall>a \<in> set ks. \<forall>b \<in> set ks. a \<noteq> b \<longrightarrow> cmp a b \<noteq> 0)" by simp_all
  show ?case unfolding keysDiffer.simps ih using r by auto
qed

lemma key_entriesOf: "map key (entriesOf kvs) = map fst kvs"
  by (induction kvs) (auto simp add: entriesOf_def entry_def)

lemma value_entriesOf: "map value (entriesOf kvs) = map snd kvs"
  by (induction kvs) (auto simp add: entriesOf_def entry_def)

lemma entriesOf_append: "entriesOf (xs @ ys) = entriesOf xs @ entriesOf ys"
  by (simp add: entriesOf_def)

lemma entriesOf_single: "entriesOf [(k, v)] = [entry k v]"
  by (simp add: entriesOf_def)

lemma entries_facts:
  assumes kd: "keysDiffer cf (map fst kvs)"
    and ok: "\<forall>(k, v) \<in> set kvs. cf k k = 0 \<and> v \<noteq> NULL"
  shows "distinct (entriesOf kvs)"
    and "\<forall>x \<in> set (entriesOf kvs). \<forall>y \<in> set (entriesOf kvs). x \<noteq> y \<longrightarrow> cf (key x) (key y) \<noteq> 0"
    and "\<forall>x \<in> set (entriesOf kvs). value x \<noteq> NULL"
    and "\<forall>x \<in> set (entriesOf kvs). cf (key x) (key x) = 0"
proof -
  have r: "\<forall>k \<in> set (map fst kvs). cf k k = 0" using ok by auto
  from kd keysDiffer_iff[where cmp=cf and ks="map fst kvs", OF r]
  have d: "distinct (map fst kvs)"
    and p: "\<forall>a \<in> set (map fst kvs). \<forall>b \<in> set (map fst kvs). a \<noteq> b \<longrightarrow> cf a b \<noteq> 0"
    by blast+
  have dk: "distinct (map key (entriesOf kvs))" using d by (simp only: key_entriesOf)
  then show "distinct (entriesOf kvs)" by (rule distinct_map[THEN iffD1, THEN conjunct1])
  have inj: "inj_on key (set (entriesOf kvs))" 
    using dk by (rule distinct_map[THEN iffD1, THEN conjunct2])
  have ks: "key ` set (entriesOf kvs) = set (map fst kvs)"
    using key_entriesOf[of kvs] by (metis set_map)
  show "\<forall>x \<in> set (entriesOf kvs). \<forall>y \<in> set (entriesOf kvs). x \<noteq> y \<longrightarrow> cf (key x) (key y) \<noteq> 0"
  proof (intro ballI impI)
    fix x y assume x: "x \<in> set (entriesOf kvs)" and y: "y \<in> set (entriesOf kvs)" and "x \<noteq> y"
    then have "key x \<noteq> key y" using inj by (auto dest: inj_onD)
    moreover have "key x \<in> set (map fst kvs)" "key y \<in> set (map fst kvs)"
      using x y ks by blast+
    ultimately show "cf (key x) (key y) \<noteq> 0" using p by blast
  qed
  show "\<forall>x \<in> set (entriesOf kvs). value x \<noteq> NULL"
    using ok by (auto simp add: entriesOf_def entry_def)
  show "\<forall>x \<in> set (entriesOf kvs). cf (key x) (key x) = 0"
    using ok by (auto simp add: entriesOf_def entry_def)
qed

lemma keysDiffer_prefix: "keysDiffer cmp (xs @ ys) \<Longrightarrow> keysDiffer cmp xs"
  by (induction xs) auto

lemma insertAll_append:
  "insertAll fuel t (xs @ ys) =
     (case insertAll fuel t xs of None \<Rightarrow> None | Some t' \<Rightarrow> insertAll fuel t' ys)"
  by (induction fuel t xs rule: insertAll.induct) (auto split: sum.splits prod.splits)

lemma holds_newTable: "c \<noteq> 0 \<Longrightarrow> holds (newTable c hf cf) []"
  by (simp add: holds_def validTable_def placed_def newTable_def)

lemma step_of_distinct_keys:
  assumes h: "holds t (entriesOf kvs)" and le: "length kvs \<le> unat (capacity t)"
    and f: "compareFunction t = cf"
    and kd: "keysDiffer cf (map fst (kvs @ [(k, v)]))"
    and ok: "\<forall>(k', v') \<in> set (kvs @ [(k, v)]). cf k' k' = 0 \<and> v' \<noteq> NULL"
    and small: "length kvs < 2 ^ 62"
  shows "\<exists>t'. insertElement (Suc fuel) [] t (Some k) v = Inr (INSERTED, [], t')
      \<and> holds t' (entriesOf (kvs @ [(k, v)])) \<and> length (kvs @ [(k, v)]) \<le> unat (capacity t')
      \<and> hashFunction t' = hashFunction t \<and> compareFunction t' = compareFunction t
      \<and> (if loadFactorExceeded (nbElements t) (capacity t)
         then capacity t' = capacity t * 2 \<and> unat (capacity t') = 2 * unat (capacity t)
         else capacity t' = capacity t)"
proof -
  have kd': "keysDiffer cf (map fst kvs)" using kd keysDiffer_prefix[of cf "map fst kvs"] by simp
  have ok': "\<forall>(k, v) \<in> set kvs. cf k k = 0 \<and> v \<noteq> NULL" using ok by simp
  note all = entries_facts[OF kd ok]
  note old = entries_facts[OF kd' ok']
  have v: "v \<noteq> NULL" using ok by simp
  have e: "entriesOf (kvs @ [(k, v)]) = entriesOf kvs @ [entry k v]"
    by (simp add: entriesOf_append entriesOf_single)
  have new: "\<forall>x \<in> set (entriesOf kvs). compareFunction t (key x) k \<noteq> 0"
  proof
    fix x assume x: "x \<in> set (entriesOf kvs)"
    have "entry k v \<notin> set (entriesOf kvs)" using all(1) unfolding e by simp
    then have "x \<noteq> entry k v" using x by blast
    moreover have "x \<in> set (entriesOf (kvs @ [(k, v)]))"
      "entry k v \<in> set (entriesOf (kvs @ [(k, v)]))"
      using x unfolding e by simp_all
    ultimately have "cf (key x) (key (entry k v)) \<noteq> 0" using all(2) by blast
    then show "compareFunction t (key x) k \<noteq> 0" using f by (simp add: entry_def)
  qed
  have diff: "\<forall>x \<in> set (entriesOf kvs). \<forall>y \<in> set (entriesOf kvs).
      x \<noteq> y \<longrightarrow> compareFunction t (key x) (key y) \<noteq> 0"
    using old(2) f by simp
  have len: "length (entriesOf kvs) = length kvs" by (simp add: entriesOf_def)
  have le1: "length (entriesOf kvs) \<le> unat (capacity t)" using le len by simp
  have small1: "length (entriesOf kvs) < 2 ^ 62" using small len by simp
  from insert_step[OF h le1 small1 old(3) v old(1) diff new, of fuel]
  show ?thesis unfolding e using len by simp
qed

lemma run_of_distinct_keys:
  assumes c: "c \<noteq> 0"
    and kd: "keysDiffer cf (map fst kvs)"
    and ok: "\<forall>(k, v) \<in> set kvs. cf k k = 0 \<and> v \<noteq> NULL"
    and small: "length kvs \<le> 2 ^ 62"
  shows "\<exists>t. insertAll (Suc fuel) (newTable c hf cf) kvs = Some t
     \<and> holds t (entriesOf kvs) \<and> length kvs \<le> unat (capacity t)
     \<and> hashFunction t = hf \<and> compareFunction t = cf"
  using kd ok small
proof (induction kvs rule: rev_induct)
  case Nil
  then show ?case using holds_newTable[OF c] by (simp add: entriesOf_def newTable_def)
next
  case (snoc p kvs)
  obtain k v where p: "p = (k, v)" by (cases p)
  have kd': "keysDiffer cf (map fst kvs)"
    using snoc.prems(1) keysDiffer_prefix[of cf "map fst kvs"] by simp
  have ok': "\<forall>(k, v) \<in> set kvs. cf k k = 0 \<and> v \<noteq> NULL" using snoc.prems(2) by simp
  have small': "length kvs < 2 ^ 62" using snoc.prems(3) by simp
  from snoc.IH[OF kd' ok'] small'
  obtain t where run: "insertAll (Suc fuel) (newTable c hf cf) kvs = Some t"
    and h: "holds t (entriesOf kvs)" and le: "length kvs \<le> unat (capacity t)"
    and f: "hashFunction t = hf" "compareFunction t = cf" by auto
  from step_of_distinct_keys[OF h le f(2) snoc.prems(1,2)[unfolded p] small', of fuel]
  obtain t' where i: "insertElement (Suc fuel) [] t (Some k) v = Inr (INSERTED, [], t')"
    and h': "holds t' (entriesOf (kvs @ [(k, v)]))"
    and le': "length (kvs @ [(k, v)]) \<le> unat (capacity t')"
    and f': "hashFunction t' = hashFunction t" "compareFunction t' = compareFunction t"
    by auto
  have "insertAll (Suc fuel) (newTable c hf cf) (kvs @ [p]) = Some t'"
    using run i by (simp add: insertAll_append p INSERTED_def NULL_def)
  then show ?case using h' le' f' f p by simp
qed

lemma holds_hasKey:
  assumes h: "holds t es" and x: "x \<in> set es"
    and r: "compareFunction t (key x) (key x) = 0"
  shows "hasKey t (Some (key x)) = Inr True"
proof -
  have vt: "validTable t" and p: "placed t" and m: "mset (concat (elementsArray t)) = mset es"
    using h by (simp_all add: holds_def)
  have c: "capacity t \<noteq> 0" using vt by (simp add: validTable_def)
  have "x \<in> set (concat (elementsArray t))" using x mset_eq_setD[OF m] by simp
  then obtain ch where ch: "ch \<in> set (elementsArray t)" "x \<in> set ch" by auto
  then obtain i where i: "i < length (elementsArray t)" "elementsArray t ! i = ch"
    by (auto simp add: in_set_conv_nth)
  then have "bucketOf t (key x) = i" using p ch by (auto simp add: placed_def)
  then have "\<exists>e \<in> set (elementsArray t ! bucketOf t (key x)). compareFunction t (key e) (key x) = 0"
    using i ch r by auto
  then show ?thesis by (simp add: hasKey_iff[OF c])
qed

text \<open>
  Claim C4, as amended. Start from a new table of non-zero capacity and insert pairs with
  pairwise inequivalent keys (each equivalent to itself) and non-null values, every
  allocation succeeding. Every insertion of the run returns \<^verbatim>\<open>(void*)-1\<close>. When the
  single-precision test \<^verbatim>\<open>(float)(count + 1) / capacity - 0.7f > FLT_EPSILON\<close> holds before an
  insertion the capacity is doubled by that insertion, otherwise it stays; below \<open>2\<^sup>2\<^sup>4\<close>
  elements and buckets the test holds exactly when \<open>(count + 1) / capacity\<close> is at least
  \<open>23488107 / 33554432\<close> (about 0.70000014). After the insertion every key inserted so far
  is found by \<open>hasKey\<close>, the chains hold exactly the pairs inserted, each once, and the
  count is their number. The run of keys 0, 1, 2 into capacity 4 with \<open>h(k) = k\<close> ends
  with capacity 8 and all three keys found.
\<close>

theorem distinct_inserts_keep_every_key:
  assumes "c \<noteq> 0"
    and "keysDiffer cf (map fst (kvs @ [(k, v)]))"
    and "\<forall>(k', v') \<in> set (kvs @ [(k, v)]). cf k' k' = 0 \<and> v' \<noteq> NULL"
    and "length kvs < 2 ^ 62"
  shows "\<exists>t t'. insertAll (Suc fuel) (newTable c hf cf) kvs = Some t
      \<and> insertElement (Suc fuel) [] t (Some k) v = Inr (INSERTED, [], t')
      \<and> insertAll (Suc fuel) (newTable c hf cf) (kvs @ [(k, v)]) = Some t'
      \<and> getNumElements t = of_nat (length kvs)
      \<and> (if loadFactorExceeded (getNumElements t) (capacity t)
         then capacity t' = capacity t * 2 \<and> unat (capacity t') = 2 * unat (capacity t)
         else capacity t' = capacity t)
      \<and> (length kvs + 1 < 2 ^ 24 \<and> unat (capacity t) < 2 ^ 24 \<longrightarrow>
           loadFactorExceeded (getNumElements t) (capacity t)
             = (23488107 * unat (capacity t) \<le> 33554432 * (length kvs + 1)))
      \<and> (\<forall>(k', v') \<in> set (kvs @ [(k, v)]). hasKey t' (Some k') = Inr True)
      \<and> mset (concat (elementsArray t')) = mset (entriesOf (kvs @ [(k, v)]))
      \<and> getNumElements t' = of_nat (length kvs + 1)"
proof -
  have kd: "keysDiffer cf (map fst kvs)"
    using assms(2) keysDiffer_prefix[of cf "map fst kvs"] by simp
  have ok: "\<forall>(k, v) \<in> set kvs. cf k k = 0 \<and> v \<noteq> NULL" using assms(3) by simp
  from run_of_distinct_keys[OF assms(1) kd ok, of fuel hf] assms(4)
  obtain t where run: "insertAll (Suc fuel) (newTable c hf cf) kvs = Some t"
    and h: "holds t (entriesOf kvs)" and le: "length kvs \<le> unat (capacity t)"
    and f: "compareFunction t = cf" by auto
  from step_of_distinct_keys[OF h le f assms(2,3,4), of fuel]
  obtain t' where i: "insertElement (Suc fuel) [] t (Some k) v = Inr (INSERTED, [], t')"
    and h': "holds t' (entriesOf (kvs @ [(k, v)]))"
    and f': "compareFunction t' = compareFunction t"
    and cap: "if loadFactorExceeded (nbElements t) (capacity t)
         then capacity t' = capacity t * 2 \<and> unat (capacity t') = 2 * unat (capacity t)
         else capacity t' = capacity t"
    by auto
  have run': "insertAll (Suc fuel) (newTable c hf cf) (kvs @ [(k, v)]) = Some t'"
    using run i by (simp add: insertAll_append INSERTED_def NULL_def)
  have n: "nbElements t = of_nat (length kvs)" using h by (simp add: holds_def entriesOf_def)
  have n': "nbElements t' = of_nat (length kvs + 1)" using h' by (simp add: holds_def entriesOf_def)
  have m': "mset (concat (elementsArray t')) = mset (entriesOf (kvs @ [(k, v)]))"
    using h' by (simp add: holds_def)
  have vt: "validTable t" using h by (simp add: holds_def)
  have thr: "loadFactorExceeded (nbElements t) (capacity t)
             = (23488107 * unat (capacity t) \<le> 33554432 * (length kvs + 1))"
    if "length kvs + 1 < 2 ^ 24" "unat (capacity t) < 2 ^ 24"
  proof -
    have "length kvs + 1 < 2 ^ 64" using that(1) by simp
    then have u: "unat (nbElements t + 1) = length kvs + 1" unfolding n by (rule unat_of_nat_succ)
    have "capacity t \<noteq> 0" using vt by (simp add: validTable_def)
    from loadFactorExceeded_small[OF _ that(2) this, of "nbElements t"] u that(1)
    show ?thesis by simp
  qed
  have hk: "\<forall>(k', v') \<in> set (kvs @ [(k, v)]). hasKey t' (Some k') = Inr True"
  proof (intro ballI, clarify)
    fix a b assume ab: "(a, b) \<in> set (kvs @ [(k, v)])"
    then have x: "entry a b \<in> set (entriesOf (kvs @ [(k, v)]))"
      unfolding entriesOf_def by force
    have "cf a a = 0" using assms(3) ab by blast
    then have "compareFunction t' (key (entry a b)) (key (entry a b)) = 0"
      using f f' by (simp add: entry_def)
    from holds_hasKey[OF h' x this] show "hasKey t' (Some a) = Inr True" by (simp add: entry_def)
  qed
  show ?thesis
    using run i run' n n' cap thr hk m' by (auto simp add: getNumElements_def)
qed

theorem distinct_inserts_keep_every_key_witness:
  "(4 :: size_t) \<noteq> 0
   \<and> keysDiffer subCmp (map fst ([(0, 10), (1, 20)] @ [(2, 30)]))
   \<and> subCmp 0 0 = 0 \<and> subCmp 1 1 = 0 \<and> subCmp 2 2 = 0
   \<and> insertAll (Suc 0) (newTable 4 idHash subCmp) [(0, 10), (1, 20)]
       = Some (numTable 4 [[entry 0 10], [entry 1 20], [], []] 2)
   \<and> loadFactorExceeded 2 4
   \<and> insertElement (Suc 0) [] (numTable 4 [[entry 0 10], [entry 1 20], [], []] 2) (Some 2) 30
       = Inr (INSERTED, [],
              numTable 8 [[entry 0 10], [entry 1 20], [entry 2 30], [], [], [], [], []] 3)
   \<and> capacity (numTable 8 [[entry 0 10], [entry 1 20], [entry 2 30], [], [], [], [], []] 3) = 8
   \<and> hasKey (numTable 8 [[entry 0 10], [entry 1 20], [entry 2 30], [], [], [], [], []] 3) (Some 0)
       = Inr True
   \<and> hasKey (numTable 8 [[entry 0 10], [entry 1 20], [entry 2 30], [], [], [], [], []] 3) (Some 1)
       = Inr True
   \<and> hasKey (numTable 8 [[entry 0 10], [entry 1 20], [entry 2 30], [], [], [], [], []] 3) (Some 2)
       = Inr True
   \<and> getNumElements (numTable 8 [[entry 0 10], [entry 1 20], [entry 2 30], [], [], [], [], []] 3)
       = 3"
proof -
  have c: "(4 :: size_t) \<noteq> 0" by simp
  have kd: "keysDiffer subCmp (map fst ([(0, 10 :: ptr), (1, 20)] @ [(2, 30)]))"
    by (simp add: subCmp_def)
  have ok: "\<forall>(k', v') \<in> set ([(0, 10), (1, 20)] @ [(2 :: nat, 30 :: ptr)]).
      subCmp k' k' = 0 \<and> v' \<noteq> NULL"
    by (simp add: subCmp_def NULL_def)
  have small: "length [(0 :: nat, 10 :: ptr), (1, 20)] < 2 ^ 62" by simp
  from distinct_inserts_keep_every_key[OF c kd ok small, of 0 idHash]
  show ?thesis
    by (elim exE conjE) (simp add: table_eval)
qed

lemma singletonChains_length [simp]: "length (singletonChains n C) = C"
  by (simp add: singletonChains_def)

lemma singletonChains_nth: "i < C \<Longrightarrow> singletonChains n C ! i = (if i < n then [entry i 1] else [])"
  by (simp add: singletonChains_def)

lemma singletonChains_step:
  assumes "n < C"
  shows "(singletonChains n C)[n := singletonChains n C ! n @ [entry n 1]] = singletonChains (Suc n) C"
proof (rule nth_equalityI)
  show "length ((singletonChains n C)[n := singletonChains n C ! n @ [entry n 1]])
      = length (singletonChains (Suc n) C)" by simp
next
  fix i assume "i < length ((singletonChains n C)[n := singletonChains n C ! n @ [entry n 1]])"
  then have i: "i < C" by simp
  show "(singletonChains n C)[n := singletonChains n C ! n @ [entry n 1]] ! i
      = singletonChains (Suc n) C ! i"
  proof (cases "i = n")
    case True
    then show ?thesis using assms by (simp add: singletonChains_nth)
  next
    case False
    then show ?thesis using i by (auto simp add: singletonChains_nth)
  qed
qed

lemma singletonChains_0: "singletonChains 0 C = replicate C []"
  by (simp add: singletonChains_def map_replicate_const)

lemma firstKeys_Suc: "firstKeys (Suc n) = firstKeys n @ [(n, 1)]"
  by (simp add: firstKeys_def)

lemma sequential_insert:
  assumes nC: "n < C" and C: "C < 2 ^ 24"
    and below: "\<not> 23488107 * C \<le> 33554432 * (n + 1)"
  shows "insertElement fuel [] (numTable (of_nat C) (singletonChains n C) (of_nat n)) (Some n) 1
     = Inr (INSERTED, [], numTable (of_nat C) (singletonChains (Suc n) C) (of_nat (Suc n)))"
proof -
  let ?t = "numTable (of_nat C) (singletonChains n C) (of_nat n)"
  have uC: "unat (of_nat C :: size_t) = C" using C by (simp add: unat_of_nat)
  have un: "unat (of_nat n :: size_t) = n" using nC C by (simp add: unat_of_nat)
  have "n + 1 < 2 ^ 64" using nC C by simp
  then have un1: "unat (of_nat n + 1 :: size_t) = n + 1" by (rule unat_of_nat_succ)
  have c: "capacity ?t \<noteq> 0" using uC nC by (auto simp add: numTable_def)
  have "unat (of_nat n + 1 :: size_t) < 2 ^ 24" using un1 nC C by simp
  from loadFactorExceeded_small[OF this, of "of_nat C"] uC C c un1 below
  have l: "\<not> loadFactorExceeded (nbElements ?t) (capacity ?t)" by (simp add: numTable_def)
  have "unat (of_nat n mod of_nat C :: size_t) = n mod C" 
    by (simp only: unat_mod uC un)
  then have b: "bucketOf ?t n = n" using nC by (simp add: bucketOf_def numTable_def idHash_def)
  have ch: "elementsArray ?t ! n = []" using nC by (simp add: numTable_def singletonChains_nth)
  have v: "(1 :: ptr) \<noteq> NULL" by (simp add: NULL_def)
  have "insertElement fuel [] ?t (Some n) 1 = insertAtIndex [] ?t n 1"
    using v l by (rule insertElement_no_resize)
  also have "\<dots> = Inr (INSERTED, [],
       ?t\<lparr>elementsArray := (elementsArray ?t)[bucketOf ?t n :=
               elementsArray ?t ! bucketOf ?t n @ [entry n 1]],
          nbElements := nbElements ?t + 1\<rparr>)"
    using ch by (simp add: insertAtIndex_no_match[OF c] b)
  also have "?t\<lparr>elementsArray := (elementsArray ?t)[bucketOf ?t n :=
               elementsArray ?t ! bucketOf ?t n @ [entry n 1]],
          nbElements := nbElements ?t + 1\<rparr>
      = numTable (of_nat C) (singletonChains (Suc n) C) (of_nat (Suc n))"
    unfolding b using singletonChains_step[OF nC] by (simp add: numTable_def)
  finally show ?thesis .
qed

lemma sequential_run:
  assumes C: "C < 2 ^ 24" and n: "n \<le> C"
    and below: "\<not> 23488107 * C \<le> 33554432 * n"
  shows "insertAll fuel (newTable (of_nat C) idHash subCmp) (firstKeys n)
     = Some (numTable (of_nat C) (singletonChains n C) (of_nat n))"
  using n below
proof (induction n)
  case 0
  have "unat (of_nat C :: size_t) = C" using C by (simp add: unat_of_nat)
  then show ?case by (simp add: firstKeys_def newTable_def numTable_def singletonChains_0)
next
  case (Suc n)
  have nC: "n < C" using Suc.prems(1) by simp
  have b: "\<not> 23488107 * C \<le> 33554432 * (n + 1)" using Suc.prems(2) by simp
  then have b': "\<not> 23488107 * C \<le> 33554432 * n" by simp
  have run: "insertAll fuel (newTable (of_nat C) idHash subCmp) (firstKeys n)
     = Some (numTable (of_nat C) (singletonChains n C) (of_nat n))"
    using Suc.IH nC b' by simp
  show ?case
    unfolding firstKeys_Suc insertAll_append run
    by (simp add: sequential_insert[OF nC C b] INSERTED_def NULL_def)
qed

lemma firstKeys_distinct:
  "distinct (map fst (firstKeys n))" "keysDiffer subCmp (map fst (firstKeys n))"
proof -
  have m: "map fst (firstKeys n) = [0..<n]" by (simp add: firstKeys_def comp_def)
  show "distinct (map fst (firstKeys n))" unfolding m by simp
  have r: "\<forall>k \<in> set [0..<n]. subCmp k k = 0" by (simp add: subCmp_def)
  show "keysDiffer subCmp (map fst (firstKeys n))"
    unfolding m keysDiffer_iff[where cmp=subCmp and ks="[0..<n]", OF r] by (simp add: subCmp_def)
qed

text \<open>
  The claim as stated fails between 0.7 and that threshold. After keys \<open>0, \<dots>, 6999999\<close>
  have been inserted into a table of capacity \<open>10\<^sup>7\<close> with \<open>h(k) = k\<close>, inserting key
  \<open>7000000\<close> has prospective load factor \<open>7000001 / 10\<^sup>7 > 0.7\<close>, and the capacity
  stays \<open>10\<^sup>7\<close>.
\<close>

theorem load_factor_above_seven_tenths_without_resize_counterexample:
  "insertAll 1 (newTable 10000000 idHash subCmp) (firstKeys 7000000)
      = Some (numTable 10000000 (singletonChains 7000000 10000000) 7000000)
   \<and> firstKeys 7000001 = firstKeys 7000000 @ [(7000000, 1)]
   \<and> distinct (map fst (firstKeys 7000001))
   \<and> keysDiffer subCmp (map fst (firstKeys 7000001))
   \<and> getNumElements (numTable 10000000 (singletonChains 7000000 10000000) 7000000) = 7000000
   \<and> capacity (numTable 10000000 (singletonChains 7000000 10000000) 7000000) = 10000000
   \<and> (7 :: rat) / 10 < (7000000 + 1) / 10000000
   \<and> insertElement 1 [] (numTable 10000000 (singletonChains 7000000 10000000) 7000000)
        (Some 7000000) 1
      = Inr (INSERTED, [], numTable 10000000 (singletonChains 7000001 10000000) 7000001)
   \<and> capacity (numTable 10000000 (singletonChains 7000001 10000000) 7000001) = 10000000"
proof -
  have C: "(10000000 :: nat) < 2 ^ 24" by simp
  have r: "insertAll 1 (newTable (of_nat 10000000) idHash subCmp) (firstKeys 7000000)
     = Some (numTable (of_nat 10000000) (singletonChains 7000000 10000000) (of_nat 7000000))"
    by (rule sequential_run[OF C]) simp_all
  have s: "insertElement 1 [] (numTable (of_nat 10000000) (singletonChains 7000000 10000000)
          (of_nat 7000000)) (Some 7000000) 1
     = Inr (INSERTED, [], numTable (of_nat 10000000) (singletonChains (Suc 7000000) 10000000)
          (of_nat (Suc 7000000)))"
    by (rule sequential_insert[OF _ C]) simp_all
  have f: "firstKeys 7000001 = firstKeys 7000000 @ [(7000000, 1)]"
    using firstKeys_Suc[of 7000000] by simp
  show ?thesis
    using r s f firstKeys_distinct[of 7000001]
    by (simp add: numTable_def getNumElements_def)
qed
end
